theory Spec2Isabelle
  imports Complex_Main
begin

section \<open>Errors and exceptions of the Python program\<close>

text \<open>
  \<^verbatim>\<open>generate_video\<close> returns \<^verbatim>\<open>(None, message)\<close> on the failures it
  handles and lets every other exception propagate to its caller. Both are values of the
  model: \<open>Message\<close> for a returned error message, \<open>Unhandled\<close> for an exception that
  leaves the function.
\<close>

datatype py_exception = ZeroDivisionError | ValueError | IndexError | Other_exception

datatype run_error =
    Failed_text         \<comment> \<open>"Failed to generate valid text content."\<close>
  | No_usable_fonts     \<comment> \<open>"No usable fonts available after multiple attempts."\<close>
  | Frame_failed nat    \<comment> \<open>"Failed to generate frame N. Font issues likely."\<close>
  | No_fonts_found      \<comment> \<open>"No fonts found. Please add fonts ..."\<close>
  | No_frames           \<comment> \<open>"No frames were generated, ..."\<close>
  | Encoding_failed     \<comment> \<open>"Error during video writing: ..."\<close>

datatype failure = Message run_error | Unhandled py_exception

section \<open>The snippet pool of \<^verbatim>\<open>generate_video\<close> (modules/video_generator.py)\<close>

text \<open>
  A pool entry is the dictionary \<^verbatim>\<open>{"lines": lines, "highlight_index": hl_index}\<close>.
  The index is a Python int; \<open>-1\<close> is the generators' failure marker.
\<close>

record snippet =
  lines :: "string list"
  highlight_index :: int

text \<open>
  What a text generator hands back: \<^verbatim>\<open>(lines, hl_index)\<close>, where \<^verbatim>\<open>lines\<close> is a
  list of strings or \<^verbatim>\<open>None\<close>.
\<close>

type_synonym gen_result = "string list option \<times> int"

text \<open>The three loop variables \<^verbatim>\<open>text_pool\<close>, \<^verbatim>\<open>current_pool_index\<close> and
  \<^verbatim>\<open>frames_with_current_text\<close> (lines 108-110).\<close>

record pool_state =
  text_pool :: "snippet list"
  current_pool_index :: nat
  frames_with_current_text :: nat

definition initial_pool :: pool_state where
  "initial_pool = \<lparr>text_pool = [], current_pool_index = 0, frames_with_current_text = 0\<rparr>"

text \<open>The module constants (lines 17-19).\<close>

definition MAX_FONT_RETRIES_PER_FRAME :: nat where
  "MAX_FONT_RETRIES_PER_FRAME = 5"

definition FRAMES_PER_SNIPPET :: nat where
  "FRAMES_PER_SNIPPET = 3"

definition TEXT_POOL_SIZE :: nat where
  "TEXT_POOL_SIZE = 10"

text \<open>
  The pool logic reads the two constants only through comparisons, so the model takes them
  as a configuration; \<open>module_config\<close> is the one the module fixes.
\<close>

record pool_config =
  pool_size :: nat
  frames_per_snippet :: nat

definition module_config :: pool_config where
  "module_config = \<lparr>pool_size = TEXT_POOL_SIZE, frames_per_snippet = FRAMES_PER_SNIPPET\<rparr>"

text \<open>Line 115: \<^verbatim>\<open>frames_with_current_text >= FRAMES_PER_SNIPPET or not text_pool\<close>.\<close>

definition needs_new_text :: "pool_config \<Rightarrow> pool_state \<Rightarrow> bool" where
  "needs_new_text cfg st \<longleftrightarrow>
     frames_with_current_text st \<ge> frames_per_snippet cfg \<or> text_pool st = []"

text \<open>
  Lines 160-161 and 165-166: \<^verbatim>\<open>if lines and hl_index != -1: text_pool.append(...)\<close>.
  A list is truthy when it is not empty; \<^verbatim>\<open>None\<close> is falsy.
\<close>

definition append_if_valid :: "snippet list \<Rightarrow> gen_result \<Rightarrow> snippet list" where
  "append_if_valid pool r =
     (case r of
        (None, hl) \<Rightarrow> pool
      | (Some ls, hl) \<Rightarrow>
          if ls \<noteq> [] \<and> hl \<noteq> -1 then pool @ [\<lparr>lines = ls, highlight_index = hl\<rparr>] else pool)"

text \<open>Line 117: a request is made only while the pool is below its size.\<close>

definition grow :: "pool_config \<Rightarrow> pool_state \<Rightarrow> gen_result \<Rightarrow> pool_state" where
  "grow cfg st r =
     (if length (text_pool st) < pool_size cfg
      then st\<lparr>text_pool := append_if_valid (text_pool st) r\<rparr>
      else st)"

text \<open>Lines 169-174: rotate to the next text, or give up when there is none.\<close>

definition rotate :: "pool_state \<Rightarrow> failure + pool_state" where
  "rotate st =
     (if text_pool st \<noteq> []
      then Inr (st\<lparr>current_pool_index := (current_pool_index st + 1) mod length (text_pool st),
                   frames_with_current_text := 0\<rparr>)
      else Inl (Message Failed_text))"

text \<open>Line 177: \<^verbatim>\<open>text_pool[current_pool_index]\<close>, an IndexError out of range.\<close>

definition current_text :: "pool_state \<Rightarrow> failure + snippet" where
  "current_text st =
     (if current_pool_index st < length (text_pool st)
      then Inr (text_pool st ! current_pool_index st)
      else Inl (Unhandled IndexError))"

text \<open>
  Lines 115-178, one pass: \<open>r\<close> is what the text request of this pass returns, read only
  when a request is made. The result is the snippet the frame is drawn from and the
  updated loop variables.
\<close>

definition pool_tick ::
  "pool_config \<Rightarrow> pool_state \<Rightarrow> gen_result \<Rightarrow> failure + (snippet \<times> pool_state)" where
  "pool_tick cfg st r =
     (case (if needs_new_text cfg st then rotate (grow cfg st r) else Inr st) of
        Inl e \<Rightarrow> Inl e
      | Inr st1 \<Rightarrow>
          (case current_text st1 of
             Inl e \<Rightarrow> Inl e
           | Inr cur \<Rightarrow>
               Inr (cur, st1\<lparr>frames_with_current_text := frames_with_current_text st1 + 1\<rparr>)))"

text \<open>
  \<open>k\<close> passes from the initial variables; \<open>supply n\<close> is what the request of pass \<open>n\<close>
  returns. The result is the list of snippets used, frame by frame, and the variables after
  the last pass.
\<close>

fun ticks ::
  "pool_config \<Rightarrow> (nat \<Rightarrow> gen_result) \<Rightarrow> nat \<Rightarrow> failure + (snippet list \<times> pool_state)" where
  "ticks cfg supply 0 = Inr ([], initial_pool)"
| "ticks cfg supply (Suc k) =
     (case ticks cfg supply k of
        Inl e \<Rightarrow> Inl e
      | Inr (used, st) \<Rightarrow>
          (case pool_tick cfg st (supply k) of
             Inl e \<Rightarrow> Inl e
           | Inr (cur, st') \<Rightarrow> Inr (used @ [cur], st')))"

text \<open>A request succeeds when its result passes the check of line 160.\<close>

definition request_ok :: "gen_result \<Rightarrow> bool" where
  "request_ok r = (case r of (None, hl) \<Rightarrow> False | (Some ls, hl) \<Rightarrow> ls \<noteq> [] \<and> hl \<noteq> -1)"

text \<open>The snippet a successful request puts into the pool.\<close>

definition snippet_of :: "gen_result \<Rightarrow> snippet" where
  "snippet_of r = \<lparr>lines = the (fst r), highlight_index = snd r\<rparr>"

text \<open>Line 58: \<^verbatim>\<open>total_frames = int(fps * duration_seconds)\<close>; both values are ints
  (the form parses them with \<^verbatim>\<open>type=int\<close>), so \<^verbatim>\<open>int\<close> changes nothing.\<close>

definition total_frames :: "int \<Rightarrow> int \<Rightarrow> int" where
  "total_frames fps duration_seconds = fps * duration_seconds"

text \<open>
  With every request successful, the snippet number \<open>m\<close> (counting from 0) is the one
  requested in pass \<open>m * frames_per_snippet\<close>.
\<close>

definition created :: "pool_config \<Rightarrow> (nat \<Rightarrow> gen_result) \<Rightarrow> nat \<Rightarrow> snippet" where
  "created cfg supply m = snippet_of (supply (m * frames_per_snippet cfg))"

section \<open>Python's \<^verbatim>\<open>random\<close> module\<close>

text \<open>
  The program draws from the global generator of \<^verbatim>\<open>random\<close>, which it never seeds. The
  model makes the generator an argument: the sequence of raw draws still to come, continued
  by zeros when the list ends. Every function that draws takes the sequence and returns
  what is left of it, so each run of the program is the model at one sequence, and a
  statement for all sequences covers every run.
\<close>

type_synonym rng = "nat list"

definition draw :: "rng \<Rightarrow> nat \<times> rng" where
  "draw g = (case g of [] \<Rightarrow> (0, []) | r # g' \<Rightarrow> (r, g'))"

text \<open>\<^verbatim>\<open>random.randint(a, b)\<close>: an int of \<open>[a, b]\<close>, a ValueError when the range is empty.\<close>

definition randint :: "int \<Rightarrow> int \<Rightarrow> rng \<Rightarrow> py_exception + (int \<times> rng)" where
  "randint a b g =
     (if b < a then Inl ValueError
      else (case draw g of (r, g') \<Rightarrow> Inr (a + int (r mod nat (b - a + 1)), g')))"

text \<open>\<^verbatim>\<open>random.choice(xs)\<close>. Every call of the modelled code passes a list that is not
  empty (a literal, or a list tested just before).\<close>

definition choice :: "'a list \<Rightarrow> rng \<Rightarrow> 'a \<times> rng" where
  "choice xs g = (case draw g of (r, g') \<Rightarrow> (xs ! (r mod length xs), g'))"

section \<open>Python string operations\<close>

text \<open>\<^verbatim>\<open>s.startswith(p)\<close> and \<^verbatim>\<open>s.endswith(p)\<close>.\<close>

definition startswith :: "'a list \<Rightarrow> 'a list \<Rightarrow> bool" where
  "startswith s p \<longleftrightarrow> take (length p) s = p"

definition endswith :: "'a list \<Rightarrow> 'a list \<Rightarrow> bool" where
  "endswith s p \<longleftrightarrow> length p \<le> length s \<and> drop (length s - length p) s = p"

text \<open>\<^verbatim>\<open>p in s\<close> for strings: \<open>p\<close> occurs in \<open>s\<close> as a contiguous piece.\<close>

fun contains :: "'a list \<Rightarrow> 'a list \<Rightarrow> bool" where
  "contains p [] \<longleftrightarrow> p = []"
| "contains p (c # s) \<longleftrightarrow> startswith (c # s) p \<or> contains p s"

text \<open>\<^verbatim>\<open>s.replace(p, w, 1)\<close>: the leftmost occurrence of \<open>p\<close> replaced by \<open>w\<close>.\<close>

fun replace_first :: "'a list \<Rightarrow> 'a list \<Rightarrow> 'a list \<Rightarrow> 'a list" where
  "replace_first p w [] = (if p = [] then w else [])"
| "replace_first p w (c # s) =
     (if startswith (c # s) p then w @ drop (length p) (c # s) else c # replace_first p w s)"

text \<open>\<^verbatim>\<open>s.index(p)\<close>: the position of the leftmost occurrence, \<open>None\<close> for the ValueError.\<close>

fun str_index :: "'a list \<Rightarrow> 'a list \<Rightarrow> nat option" where
  "str_index p [] = (if p = [] then Some 0 else None)"
| "str_index p (c # s) =
     (if startswith (c # s) p then Some 0 else map_option Suc (str_index p s))"

text \<open>
  \<^verbatim>\<open>str.isspace\<close> on the characters a \<open>char\<close> can hold (code points below 256), and
  \<^verbatim>\<open>s.split()\<close>, the maximal runs of characters that are not whitespace.
\<close>

definition py_isspace :: "char \<Rightarrow> bool" where
  "py_isspace c \<longleftrightarrow> (of_char c :: nat) \<in> {9, 10, 11, 12, 13, 28, 29, 30, 31, 32, 133, 160}"

fun split_acc :: "string \<Rightarrow> string \<Rightarrow> string list" where
  "split_acc cur [] = (if cur = [] then [] else [cur])"
| "split_acc cur (c # s) =
     (if py_isspace c then (if cur = [] then split_acc [] s else cur # split_acc [] s)
      else split_acc (cur @ [c]) s)"

definition split_ws :: "string \<Rightarrow> string list" where
  "split_ws s = split_acc [] s"

section \<open>The procedural text generator (modules/text_generation.py)\<close>

text \<open>The word lists of \<^verbatim>\<open>fill_sentence_structure\<close> (lines 61-93) and the sentence
  structures of \<^verbatim>\<open>generate_sentence_structure\<close> (lines 31-55).\<close>

definition noun_words :: "string list" where
  "noun_words =
     [''time'', ''person'', ''year'', ''way'', ''day'', ''thing'', ''world'', ''life'',
      ''hand'', ''part'', ''child'', ''eye'', ''place'', ''work'', ''week'', ''case'',
      ''company'', ''system'', ''program'', ''question'', ''government'', ''number'',
      ''night'', ''point'', ''home'', ''water'', ''room'', ''mother'', ''area'', ''money'',
      ''story'', ''fact'', ''month'', ''lot'', ''right'', ''study'', ''book'', ''word'',
      ''business'']"

definition verb_words :: "string list" where
  "verb_words =
     [''is'', ''are'', ''was'', ''were'', ''be'', ''been'', ''being'', ''have'', ''has'',
      ''had'', ''do'', ''does'', ''did'', ''done'', ''make'', ''makes'', ''made'',
      ''know'', ''thinks'', ''takes'', ''goes'', ''comes'', ''uses'', ''finds'', ''gives'',
      ''tells'', ''works'', ''likes'', ''needs'', ''feels'', ''becomes'', ''leaves'',
      ''puts'', ''means'', ''keeps'', ''lets'', ''begins'', ''seems'', ''helps'',
      ''shows'', ''plays'']"

definition adj_words :: "string list" where
  "adj_words =
     [''good'', ''new'', ''first'', ''last'', ''long'', ''great'', ''little'', ''own'',
      ''other'', ''old'', ''right'', ''big'', ''high'', ''different'', ''small'',
      ''large'', ''early'', ''young'', ''important'', ''few'', ''public'', ''same'',
      ''able'', ''best'', ''better'', ''low'', ''certain'', ''special'', ''hard'',
      ''major'', ''personal'', ''current'', ''national'', ''natural'', ''physical'',
      ''strong'', ''possible'', ''clear'']"

definition adv_words :: "string list" where
  "adv_words =
     [''quickly'', ''slowly'', ''carefully'', ''happily'', ''sadly'', ''really'', ''very'',
      ''extremely'', ''quite'', ''rather'', ''almost'', ''nearly'', ''too'', ''also'',
      ''then'', ''however'', ''again'', ''still'', ''sometimes'', ''often'', ''usually'',
      ''always'', ''never'', ''ever'', ''perhaps'', ''especially'', ''actually'',
      ''clearly'', ''certainly'', ''absolutely'', ''completely'']"

definition prep_words :: "string list" where
  "prep_words =
     [''in'', ''on'', ''with'', ''at'', ''by'', ''for'', ''from'', ''to'', ''of'',
      ''about'', ''between'', ''among'', ''through'', ''without'', ''before'', ''after'',
      ''during'', ''around'', ''beyond'', ''under'', ''over'', ''into'', ''against'',
      ''despite'', ''throughout'', ''within'', ''along'', ''upon'', ''beside'']"

definition pronoun_words :: "string list" where
  "pronoun_words =
     [''I'', ''you'', ''he'', ''she'', ''it'', ''we'', ''they'', ''me'', ''him'', ''her'',
      ''us'', ''them'', ''my'', ''your'', ''his'', ''her'', ''its'', ''our'', ''their'',
      ''mine'', ''yours'', ''hers'', ''ours'', ''theirs'', ''myself'', ''yourself'',
      ''himself'', ''herself'', ''itself'', ''ourselves'', ''themselves'']"

definition det_words :: "string list" where
  "det_words =
     [''the'', ''a'', ''an'', ''this'', ''that'', ''these'', ''those'', ''my'', ''your'',
      ''his'', ''her'', ''its'', ''our'', ''their'', ''some'', ''any'', ''each'',
      ''every'', ''many'', ''much'', ''few'', ''several'', ''all'', ''both'', ''either'',
      ''neither'', ''no'', ''another'']"

definition structures :: "string list" where
  "structures =
     [''The {adj} {noun} {verb} {adv} {prep} the {adj} {noun}.'',
      ''{det} {adj} {noun} {verb} {det} {adj} {noun} {prep} {det} {adj} {noun}.'',
      ''{pronoun} {adv} {verb} that {det} {noun} {verb} {adv} {prep} {det} {noun}.'',
      ''When {det} {adj} {noun} {verb} {adv}, {det} {adj} {noun} {verb} {prep} {det} {noun}.'',
      ''If {pronoun} {verb} {det} {adj} {noun}, {pronoun} will {verb} {det} {adj} {noun} {adv}.'',
      ''{det} {adj} {noun} {verb} to {verb} {prep} {det} {adj} {noun} {prep} {det} {noun}.'',
      ''{det} {noun} {verb} {adv}, but {det} {adj} {noun} {verb} {prep} {det} {adj} {noun}.'',
      ''Although {det} {noun} {verb} {adv}, {det} {adj} {noun} {verb} {prep} {det} {adj} {noun}.'',
      ''Not only {verb} {det} {adj} {noun} {adv}, but it also {verb} {prep} {det} {adj} {noun}.'',
      ''During {det} {adj} {noun}, {det} {adj} {noun} {verb} {adv} {prep} {det} {noun}.'',
      ''{det} {adj} {noun} {verb} {adv} because {det} {adj} {noun} {verb} {prep} {det} {noun}.'',
      ''{det} {noun} that {verb} {prep} {det} {adj} {noun} {adv} {verb} {det} {adj} {noun}.'',
      ''Why {verb} {det} {adj} {noun} {adv} {prep} {det} {adj} {noun}?'',
      ''How {adv} {verb} {det} {adj} {noun} {prep} {det} {adj} {noun}?'']"

definition extra_phrases :: "string list" where
  "extra_phrases =
     ['' in the most unexpected way'', '' as we had anticipated earlier'',
      '' according to recent observations'', '' with remarkable precision and detail'',
      '' throughout the entire process'', '' despite previous contradicting evidence'',
      '' in this particular context'']"

definition suffixes :: "string list" where
  "suffixes = [''indeed'', ''for sure'', ''without doubt'', ''as expected'', ''interestingly'']"

text \<open>The keys of the dictionary \<^verbatim>\<open>parts\<close>, in the order the loop of line 98 visits
  them (the order they are written in).\<close>

datatype category = Noun | Verb | Adj | Adv | Prep | Pronoun | Det

definition categories :: "category list" where
  "categories = [Noun, Verb, Adj, Adv, Prep, Pronoun, Det]"

fun words :: "category \<Rightarrow> string list" where
  "words Noun = noun_words"
| "words Verb = verb_words"
| "words Adj = adj_words"
| "words Adv = adv_words"
| "words Prep = prep_words"
| "words Pronoun = pronoun_words"
| "words Det = det_words"

text \<open>\<^verbatim>\<open>'{'+category+'}'\<close>.\<close>

fun placeholder :: "category \<Rightarrow> string" where
  "placeholder Noun = ''{noun}''"
| "placeholder Verb = ''{verb}''"
| "placeholder Adj = ''{adj}''"
| "placeholder Adv = ''{adv}''"
| "placeholder Prep = ''{prep}''"
| "placeholder Pronoun = ''{pronoun}''"
| "placeholder Det = ''{det}''"

text \<open>\<^verbatim>\<open>generate_sentence_structure\<close>.\<close>

definition generate_sentence_structure :: "rng \<Rightarrow> string \<times> rng" where
  "generate_sentence_structure g = choice structures g"

text \<open>A string is truthy when it is not empty; \<^verbatim>\<open>None\<close> is falsy.\<close>

definition truthy :: "string option \<Rightarrow> bool" where
  "truthy s \<longleftrightarrow> (case s of None \<Rightarrow> False | Some x \<Rightarrow> x \<noteq> [])"

lemma startswith_split: "startswith s p \<Longrightarrow> s = p @ drop (length p) s"
  by (metis append_take_drop_id startswith_def)

lemma replace_first_split:
  "contains p s \<Longrightarrow> \<exists>a b. s = a @ p @ b \<and> replace_first p w s = a @ w @ b"
proof (induction s)
  case Nil
  then show ?case by simp
next
  case (Cons c s)
  show ?case
  proof (cases "startswith (c # s) p")
    case True
    have rf: "replace_first p w (c # s) = w @ drop (length p) (c # s)"
      using True by simp
    from startswith_split[OF True] rf
    have "c # s = [] @ p @ drop (length p) (c # s) \<and>
          replace_first p w (c # s) = [] @ w @ drop (length p) (c # s)"
      by simp
    then show ?thesis by blast
  next
    case False
    with Cons.prems have "contains p s" by simp
    from Cons.IH[OF this] obtain a b where "s = a @ p @ b" "replace_first p w s = a @ w @ b"
      by blast
    then have "c # s = (c # a) @ p @ b \<and> replace_first p w (c # s) = (c # a) @ w @ b"
      using False by simp
    then show ?thesis by blast
  qed
qed

lemma count_replace_first:
  assumes "contains p s"
  shows "count_list (replace_first p w s) x + count_list p x = count_list s x + count_list w x"
proof -
  from replace_first_split[OF assms, of w] obtain a b where
    "s = a @ p @ b" "replace_first p w s = a @ w @ b" by blast
  then show ?thesis by simp
qed

lemma length_replace_first:
  assumes "contains p s"
  shows "length (replace_first p w s) + length p = length s + length w"
proof -
  from replace_first_split[OF assms, of w] obtain a b where
    "s = a @ p @ b" "replace_first p w s = a @ w @ b" by blast
  then show ?thesis by simp
qed

lemma choice_in_set: "xs \<noteq> [] \<Longrightarrow> choice xs g = (x, g') \<Longrightarrow> x \<in> set xs"
  by (auto simp: choice_def split: prod.splits)

lemma words_nonempty: "words c \<noteq> []"
  by (cases c) (simp_all add: noun_words_def verb_words_def adj_words_def adv_words_def
      prep_words_def pronoun_words_def det_words_def)

lemma brace_free_lists:
  "list_all (\<lambda>w. CHR ''{'' \<notin> set w) noun_words"
  "list_all (\<lambda>w. CHR ''{'' \<notin> set w) verb_words"
  "list_all (\<lambda>w. CHR ''{'' \<notin> set w) adj_words"
  "list_all (\<lambda>w. CHR ''{'' \<notin> set w) adv_words"
  "list_all (\<lambda>w. CHR ''{'' \<notin> set w) prep_words"
  "list_all (\<lambda>w. CHR ''{'' \<notin> set w) pronoun_words"
  "list_all (\<lambda>w. CHR ''{'' \<notin> set w) det_words"
  by (simp_all add: noun_words_def verb_words_def adj_words_def adv_words_def
      prep_words_def pronoun_words_def det_words_def)

lemma words_brace_free: "w \<in> set (words c) \<Longrightarrow> CHR ''{'' \<notin> set w"
  using brace_free_lists by (cases c) (simp_all add: list_all_iff)

lemma placeholder_one_brace: "count_list (placeholder c) CHR ''{'' = 1"
  by (cases c) simp_all

lemma brace_count_zero: "w \<in> set (words c) \<Longrightarrow> count_list w CHR ''{'' = 0"
proof -
  assume "w \<in> set (words c)"
  then have "CHR ''{'' \<notin> set w" by (rule words_brace_free)
  then show ?thesis by (rule count_notin)
qed

lemma fill_step_decreases:
  assumes "contains (placeholder c) result" and "choice (words c) g = (word, g')"
  shows "count_list (replace_first (placeholder c) word result) CHR ''{''
           < count_list result CHR ''{''"
proof -
  have "word \<in> set (words c)"
    by (rule choice_in_set[OF words_nonempty assms(2)])
  then have z: "count_list word CHR ''{'' = 0" by (rule brace_count_zero)
  have "count_list (replace_first (placeholder c) word result) CHR ''{'' + 1
          = count_list result CHR ''{'' + 0"
    using count_replace_first[OF assms(1), of word "CHR ''{''"]
    unfolding placeholder_one_brace z .
  then show ?thesis by linarith
qed

text \<open>
  Lines 98-104 of \<^verbatim>\<open>fill_sentence_structure\<close>, the inner \<^verbatim>\<open>while\<close> for one category:
  a word is drawn in every round; the special word takes its place once, in the category
  \<^verbatim>\<open>special_word_pos\<close> names.
\<close>

function fill_category ::
  "category \<Rightarrow> string option \<Rightarrow> category option \<Rightarrow> string \<Rightarrow> rng
     \<Rightarrow> string \<times> string option \<times> rng" where
  "fill_category cat special pos result g =
     (if contains (placeholder cat) result
      then (case choice (words cat) g of
              (word, g') \<Rightarrow>
                if truthy special \<and> pos = Some cat
                then fill_category cat None pos
                       (replace_first (placeholder cat) (the special) result) g'
                else fill_category cat special pos
                       (replace_first (placeholder cat) word result) g')
      else (result, special, g))"
  by pat_completeness auto
termination
proof (relation "measures
    [\<lambda>(cat, special, pos, result, g). if truthy special \<and> pos = Some cat then 1 else 0,
     \<lambda>(cat, special, pos, result, g). count_list result CHR ''{'']", goal_cases)
  case 1
  show ?case by simp
next
  case (2 cat special pos result g word g')
  then show ?case by (simp add: truthy_def)
next
  case (3 cat special pos result g word g')
  have "count_list (replace_first (placeholder cat) word result) CHR ''{''
          < count_list result CHR ''{''"
    by (rule fill_step_decreases[OF 3(1) 3(2)[symmetric]])
  then show ?case by simp
qed

text \<open>The outer \<^verbatim>\<open>for category in parts\<close>.\<close>

fun fill_categories ::
  "category list \<Rightarrow> string option \<Rightarrow> category option \<Rightarrow> string \<Rightarrow> rng \<Rightarrow> string \<times> rng" where
  "fill_categories [] special pos result g = (result, g)"
| "fill_categories (c # cs) special pos result g =
     (case fill_category c special pos result g of
        (result', special', g') \<Rightarrow> fill_categories cs special' pos result' g')"

text \<open>
  Lines 107-119, \<^verbatim>\<open>while len(result) < 50\<close>: an adjective is put after the first
  " the " or " a "; with neither, a sentence ending in a full stop gets a suffix and the
  loop is left.
\<close>

function lengthen :: "string \<Rightarrow> rng \<Rightarrow> string \<times> rng" where
  "lengthen result g =
     (if length result < 50
      then (if contains '' the '' result
            then (case choice adj_words g of
                    (adj, g') \<Rightarrow>
                      lengthen (replace_first '' the '' ('' the '' @ adj @ '' '') result) g')
            else if contains '' a '' result
            then (case choice adj_words g of
                    (adj, g') \<Rightarrow>
                      lengthen (replace_first '' a '' ('' a '' @ adj @ '' '') result) g')
            else if endswith result ''.''
            then (case choice suffixes g of
                    (sfx, g') \<Rightarrow> (butlast result @ '' '' @ sfx @ ''.'', g'))
            else (result, g))
      else (result, g))"
  by pat_completeness auto
termination
proof (relation "measure (\<lambda>(result, g). 50 - length result)", goal_cases)
  case 1
  show ?case by simp
next
  case (2 result g adj g')
  from length_replace_first[OF 2(2), of "'' the '' @ adj @ '' ''"] 2(1)
  show ?case by simp
next
  case (3 result g adj g')
  from length_replace_first[OF 3(3), of "'' a '' @ adj @ '' ''"] 3(1)
  show ?case by simp
qed

text \<open>\<^verbatim>\<open>fill_sentence_structure(structure, special_word, special_word_pos)\<close>.\<close>

definition fill_sentence_structure ::
  "string \<Rightarrow> string option \<Rightarrow> category option \<Rightarrow> rng \<Rightarrow> string \<times> rng" where
  "fill_sentence_structure structure special pos g =
     (case fill_categories categories special pos structure g of
        (result, g') \<Rightarrow> lengthen result g')"

text \<open>
  \<^verbatim>\<open>generate_random_text_snippet\<close>, lines 138-148: a highlight of several words is
  spliced into one of five structures.
\<close>

definition is_phrase :: "string \<Rightarrow> bool" where
  "is_phrase highlighted_text \<longleftrightarrow>
     contains '' '' highlighted_text \<and> length (split_ws highlighted_text) > 1"

definition phrase_structures :: "string \<Rightarrow> string list" where
  "phrase_structures highlighted_text =
     [''The {adj} {noun} '' @ highlighted_text @ '' {prep} {det} {adj} {noun}.'',
      ''{det} {adj} {noun} {adv} '' @ highlighted_text @ '' {prep} {det} {noun}.'',
      ''When '' @ highlighted_text @ '', {det} {adj} {noun} {verb} {adv} {prep} {det} {noun}.'',
      ''{pronoun} {verb} that '' @ highlighted_text @ '' {verb} {adv} {prep} {det} {adj} {noun}.'',
      ''Because of '' @ highlighted_text
          @ '', {det} {adj} {noun} {verb} {adv} {prep} {det} {noun}.'']"

text \<open>Line 163, the structure of the retries for a phrase.\<close>

definition retry_structure :: "string \<Rightarrow> string" where
  "retry_structure highlighted_text =
     ''Although {det} {adj} {noun} {verb} {adv}, '' @ highlighted_text
       @ '' {verb} {prep} {det} {adj} {noun}.''"

definition MIN_LINE_LENGTH :: nat where
  "MIN_LINE_LENGTH = 50"

definition MAX_LINE_LENGTH :: nat where
  "MAX_LINE_LENGTH = 80"

text \<open>
  Lines 140-156, the first sentence of the highlighted line; for a single word the
  part of speech drawn at line 154 is returned too, the retries use it again.
\<close>

definition first_highlight_sentence :: "string \<Rightarrow> rng \<Rightarrow> string \<times> category option \<times> rng" where
  "first_highlight_sentence highlighted_text g =
     (if is_phrase highlighted_text
      then (case choice (phrase_structures highlighted_text) g of
              (structure, g1) \<Rightarrow>
                (case fill_sentence_structure structure None None g1 of
                   (sentence, g2) \<Rightarrow> (sentence, None, g2)))
      else (case choice [Noun, Verb, Adj] g of
              (special_pos, g1) \<Rightarrow>
                (case generate_sentence_structure g1 of
                   (structure, g2) \<Rightarrow>
                     (case fill_sentence_structure structure (Some highlighted_text)
                             (Some special_pos) g2 of
                        (sentence, g3) \<Rightarrow> (sentence, Some special_pos, g3)))))"

text \<open>Lines 159-169: \<^verbatim>\<open>while len(sentence) < MIN_LINE_LENGTH and attempts < 5\<close>.\<close>

function retry_highlight ::
  "string \<Rightarrow> category option \<Rightarrow> string \<Rightarrow> nat \<Rightarrow> rng \<Rightarrow> string \<times> rng" where
  "retry_highlight highlighted_text special_pos sentence attempts g =
     (if length sentence < MIN_LINE_LENGTH \<and> attempts < 5
      then (if is_phrase highlighted_text
            then (case fill_sentence_structure (retry_structure highlighted_text) None None g of
                    (sentence', g1) \<Rightarrow>
                      retry_highlight highlighted_text special_pos sentence' (attempts + 1) g1)
            else (case generate_sentence_structure g of
                    (structure, g1) \<Rightarrow>
                      (case fill_sentence_structure structure (Some highlighted_text)
                              special_pos g1 of
                         (sentence', g2) \<Rightarrow>
                           retry_highlight highlighted_text special_pos sentence'
                             (attempts + 1) g2)))
      else (sentence, g))"
  by pat_completeness auto
termination
  by (relation "measure (\<lambda>(h, p, s, attempts, g). 5 - attempts)") auto

definition highlight_line :: "string \<Rightarrow> rng \<Rightarrow> string \<times> rng" where
  "highlight_line highlighted_text g =
     (case first_highlight_sentence highlighted_text g of
        (sentence, special_pos, g1) \<Rightarrow>
          retry_highlight highlighted_text special_pos sentence 0 g1)"

text \<open>Lines 174-181, a line without the highlight.\<close>

function retry_normal :: "string \<Rightarrow> nat \<Rightarrow> rng \<Rightarrow> string \<times> rng" where
  "retry_normal sentence attempts g =
     (if length sentence < MIN_LINE_LENGTH \<and> attempts < 5
      then (case generate_sentence_structure g of
              (structure, g1) \<Rightarrow>
                (case fill_sentence_structure structure None None g1 of
                   (sentence', g2) \<Rightarrow> retry_normal sentence' (attempts + 1) g2))
      else (sentence, g))"
  by pat_completeness auto
termination
  by (relation "measure (\<lambda>(s, attempts, g). 5 - attempts)") auto

definition normal_line :: "rng \<Rightarrow> string \<times> rng" where
  "normal_line g =
     (case generate_sentence_structure g of
        (structure, g1) \<Rightarrow>
          (case fill_sentence_structure structure None None g1 of
             (sentence, g2) \<Rightarrow> retry_normal sentence 0 g2))"

text \<open>
  Lines 134-183, \<^verbatim>\<open>for i in range(num_lines)\<close>: \<open>i\<close> is the index of the line built
  next, the third argument the number of lines still to build.
\<close>

fun build_lines :: "string \<Rightarrow> nat \<Rightarrow> nat \<Rightarrow> nat \<Rightarrow> rng \<Rightarrow> string list \<times> rng" where
  "build_lines highlighted_text highlight_line_index i 0 g = ([], g)"
| "build_lines highlighted_text highlight_line_index i (Suc n) g =
     (case (if i = highlight_line_index then highlight_line highlighted_text g
            else normal_line g) of
        (sentence, g1) \<Rightarrow>
          (case build_lines highlighted_text highlight_line_index (Suc i) n g1 of
             (rest, g2) \<Rightarrow> (sentence # rest, g2)))"

text \<open>
  Lines 191-193: \<^verbatim>\<open>while cut_point > 0 and line[cut_point] != ' ': cut_point -= 1\<close>.
  The loop starts at 80 in a line longer than 80, so every index it reads exists.
\<close>

fun find_cut :: "string \<Rightarrow> nat \<Rightarrow> nat" where
  "find_cut line 0 = 0"
| "find_cut line (Suc c) = (if line ! Suc c \<noteq> CHR '' '' then find_cut line c else Suc c)"

text \<open>Lines 189-196, cutting a line that is too long.\<close>

definition cut_line :: "string \<Rightarrow> string" where
  "cut_line line =
     (if length line > MAX_LINE_LENGTH
      then (let cut_point = find_cut line MAX_LINE_LENGTH
            in if cut_point > MIN_LINE_LENGTH then take cut_point line @ ''.'' else line)
      else line)"

text \<open>Lines 199-216, extending a line that is too short; the phrase is drawn only in
  the branch that uses it.\<close>

definition extend_line :: "string \<Rightarrow> rng \<Rightarrow> string \<times> rng" where
  "extend_line line g =
     (if length line < MIN_LINE_LENGTH
      then (if endswith line ''.''
            then (case choice extra_phrases g of (e, g') \<Rightarrow> (butlast line @ e @ ''.'', g'))
            else if endswith line ''?''
            then (case choice extra_phrases g of (e, g') \<Rightarrow> (butlast line @ e @ ''?'', g'))
            else if endswith line ''!''
            then (case choice extra_phrases g of (e, g') \<Rightarrow> (butlast line @ e @ ''!'', g'))
            else (line, g))
      else (line, g))"

text \<open>Lines 186-218, the loop over the lines built.\<close>

fun finalize_lines :: "string list \<Rightarrow> rng \<Rightarrow> string list \<times> rng" where
  "finalize_lines [] g = ([], g)"
| "finalize_lines (line # rest) g =
     (case extend_line (cut_line line) g of
        (line', g1) \<Rightarrow>
          (case finalize_lines rest g1 of (rest', g2) \<Rightarrow> (line' # rest', g2)))"

text \<open>
  \<^verbatim>\<open>generate_random_text_snippet(highlighted_text, min_lines, max_lines)\<close>. Both calls
  of \<^verbatim>\<open>randint\<close> can raise; nothing in the function catches.
\<close>

definition generate_random_text_snippet ::
  "string \<Rightarrow> int \<Rightarrow> int \<Rightarrow> rng \<Rightarrow> py_exception + (gen_result \<times> rng)" where
  "generate_random_text_snippet highlighted_text min_lines max_lines g =
     (case randint (max 1 min_lines) (max min_lines max_lines) g of
        Inl e \<Rightarrow> Inl e
      | Inr (num_lines, g1) \<Rightarrow>
          (case randint 0 (num_lines - 1) g1 of
             Inl e \<Rightarrow> Inl e
           | Inr (highlight_line_index, g2) \<Rightarrow>
               (case build_lines highlighted_text (nat highlight_line_index) 0
                       (nat num_lines) g2 of
                  (built, g3) \<Rightarrow>
                    (case finalize_lines built g3 of
                       (final_lines, g4) \<Rightarrow>
                         if int (length final_lines) < min_lines then Inr ((None, -1), g4)
                         else Inr ((Some final_lines, highlight_line_index), g4)))))"

section \<open>The layout of \<^verbatim>\<open>create_text_image_frame\<close> (modules/image_processing.py)\<close>

text \<open>
  Lines 91-127 compute where the text goes from what the font reports. Pillow's
  measurements are inputs of the model; Python's floats are read as the real numbers they
  stand for, and \<^verbatim>\<open>int(x)\<close> truncates towards zero.
\<close>

definition py_int :: "real \<Rightarrow> int" where
  "py_int x = (if 0 \<le> x then \<lfloor>x\<rfloor> else \<lceil>x\<rceil>)"

text \<open>
  \<^verbatim>\<open>font.getmetrics()\<close> gives ascent and descent; when the font object has no such
  method (AttributeError) the height of the bounding box of "Ay" is used, given here by
  its top and bottom.
\<close>

datatype font_metrics = Metrics int int | Bbox_only int int

text \<open>What the bold font reports for the highlighted text: \<^verbatim>\<open>getlength\<close>, and the
  top and bottom of \<^verbatim>\<open>getbbox\<close>.\<close>

record bold_measure =
  bold_length :: real
  bbox_top :: int
  bbox_bottom :: int

record layout =
  line_height :: int
  highlight_width_bold :: real
  highlight_height_bold :: real
  highlight_target_x :: real
  highlight_target_y :: real
  block_start_y :: real

text \<open>Lines 94-102.\<close>

definition compute_line_height :: "int \<Rightarrow> real \<Rightarrow> font_metrics \<Rightarrow> int" where
  "compute_line_height font_size vertical_spread_factor m =
     (let line_height =
            (case m of
               Metrics ascent descent \<Rightarrow>
                 py_int (real_of_int (ascent + \<bar>descent\<bar>) * vertical_spread_factor)
             | Bbox_only y0 y1 \<Rightarrow>
                 py_int (real_of_int (y1 - y0) * vertical_spread_factor))
      in if real_of_int line_height \<le> real_of_int font_size * 0.8
         then py_int (real_of_int font_size * 1.2 * vertical_spread_factor)
         else line_height)"

text \<open>
  Lines 104-127. The value that line 114 gives \<^verbatim>\<open>highlight_target_y\<close> is replaced at
  line 127; the final overlay (lines 226-247) draws the rectangle and the bold text at
  \<^verbatim>\<open>(highlight_target_x, highlight_target_y)\<close> in every blur mode.
\<close>

definition compute_layout ::
  "int \<Rightarrow> int \<Rightarrow> nat \<Rightarrow> int \<Rightarrow> nat \<Rightarrow> int \<Rightarrow> real \<Rightarrow> font_metrics \<Rightarrow> bold_measure \<Rightarrow> layout" where
  "compute_layout width height num_text_lines highlight_line_index highlighted_length
       font_size vertical_spread_factor m b =
     (let lh = compute_line_height font_size vertical_spread_factor m;
          w0 = bold_length b;
          h0 = real_of_int (bbox_bottom b - bbox_top b);
          degenerate = (w0 \<le> 0 \<or> h0 \<le> 0);
          hh = (if degenerate then real_of_int (py_int (real_of_int font_size * 1.1)) else h0);
          hw = (if degenerate \<and> w0 \<le> 0
                then real highlighted_length * real_of_int font_size * 0.6 else w0);
          tx = (real_of_int width - hw) / 2;
          ty0 = (real_of_int height - hh) / 2;
          total_block_height = lh * int num_text_lines;
          vertical_center_offset = (real_of_int height - real_of_int total_block_height) / 2;
          bsy = max 10 vertical_center_offset;
          ty = bsy + real_of_int (highlight_line_index * lh)
      in \<lparr>line_height = lh, highlight_width_bold = hw, highlight_height_bold = hh,
          highlight_target_x = tx, highlight_target_y = ty, block_start_y = bsy\<rparr>)"

section \<open>Validation of AI text (modules/ai_providers.py)\<close>

text \<open>
  \<^verbatim>\<open>generate_ai_text_snippet\<close> asks the provider inside a \<^verbatim>\<open>try\<close>. What the
  provider-specific call gives is an input of the model: it raises (any exception is
  caught at line 243), or it returns \<^verbatim>\<open>(lines, highlight_index)\<close>; an unknown
  provider leaves \<^verbatim>\<open>(None, -1)\<close>.
\<close>

datatype provider_reply = Provider_raises | Provider_returns "string list option" int

text \<open>Lines 214-222, the test a line must pass.\<close>

definition ai_line_ok :: "string \<Rightarrow> bool" where
  "ai_line_ok line \<longleftrightarrow>
     length line \<ge> 40 \<and> length line \<le> 100 \<and> contains '' '' line \<and>
     (contains ''.'' line \<or> contains ''?'' line \<or> contains ''!'' line) \<and>
     \<not> startswith line ''#'' \<and> \<not> startswith line ''```'' \<and> \<not> startswith line ''---'' \<and>
     list_ex (\<lambda>c. \<not> py_isspace c) line \<and>
     length (split_ws line) \<ge> 5"

text \<open>The index of the first element with a property (the loops of lines 231-234).\<close>

fun first_index :: "('a \<Rightarrow> bool) \<Rightarrow> 'a list \<Rightarrow> nat option" where
  "first_index P [] = None"
| "first_index P (x # xs) = (if P x then Some 0 else map_option Suc (first_index P xs))"

text \<open>Lines 171-172 and 208-245.\<close>

definition generate_ai_text_snippet ::
  "bool \<Rightarrow> string \<Rightarrow> int \<Rightarrow> provider_reply \<Rightarrow> gen_result" where
  "generate_ai_text_snippet client highlighted_text min_lines reply =
     (if \<not> client then (None, -1)
      else (case reply of
              Provider_raises \<Rightarrow> (None, -1)
            | Provider_returns None hi \<Rightarrow> (None, -1)
            | Provider_returns (Some ls) hi \<Rightarrow>
                if ls \<noteq> [] \<and> hi \<noteq> -1
                then (let valid_lines = filter ai_line_ok ls
                      in if valid_lines \<noteq> [] \<and> int (length valid_lines) \<ge> min_lines
                         then (case first_index (contains highlighted_text) valid_lines of
                                 Some i \<Rightarrow> (Some valid_lines, int i)
                               | None \<Rightarrow> (None, -1))
                         else (None, -1))
                else (None, -1)))"

section \<open>Fonts and frames (modules/video_generator.py, modules/image_processing.py)\<close>

text \<open>
  What the run reads from outside: whether the selected font file exists, and what
  matplotlib's \<^verbatim>\<open>findfont\<close> offers as a last resort (\<open>None\<close> when it offers nothing
  or raises), and whether the encoder writes the file.
\<close>

record environment =
  selected_font_exists :: bool
  fallback_font :: "string option"
  encoder_ok :: bool

text \<open>
  \<^verbatim>\<open>create_text_image_frame\<close> draws with Pillow; of one call the loop sees only whether
  it returned an image or what it raised.
\<close>

datatype render_outcome = Rendered | Raises_FontLoadError | Raises_FontDrawError | Raises_other

text \<open>
  The state outside the loop variables: the draws of \<^verbatim>\<open>random\<close> to come, the outcomes
  of the render calls to come (every call after the list ends returns an image) and the
  provider's replies to come (every call after the list ends raises).
\<close>

record world =
  w_rng :: rng
  w_renders :: "render_outcome list"
  w_replies :: "provider_reply list"

definition next_render :: "world \<Rightarrow> render_outcome \<times> world" where
  "next_render w =
     (case w_renders w of [] \<Rightarrow> (Rendered, w) | out # rest \<Rightarrow> (out, w\<lparr>w_renders := rest\<rparr>))"

definition next_reply :: "provider_reply list \<Rightarrow> provider_reply \<times> provider_reply list" where
  "next_reply rs = (case rs of [] \<Rightarrow> (Provider_raises, []) | r # rest \<Rightarrow> (r, rest))"

text \<open>The parameters \<^verbatim>\<open>generate_video\<close> reads, \<^verbatim>\<open>min_lines\<close> and \<^verbatim>\<open>max_lines\<close>
  after the defaults of the text density; \<open>font_paths\<close> is what the font discovery of
  lines 82-94 found, \<open>ai_ready\<close> is \<^verbatim>\<open>ai_enabled and ai_client\<close>.\<close>

record params =
  p_fps :: int
  p_duration :: int
  p_highlighted_text :: string
  p_min_lines :: int
  p_max_lines :: int
  p_selected_font :: string
  p_font_dir :: string
  p_font_paths :: "string list"
  p_ai_ready :: bool

text \<open>\<^verbatim>\<open>os.path.join\<close> of two components (POSIX).\<close>

definition path_join :: "string \<Rightarrow> string \<Rightarrow> string" where
  "path_join a b =
     (if startswith b ''/'' then b
      else if a = [] \<or> endswith a ''/'' then a @ b
      else a @ ''/'' @ b)"

text \<open>
  \<^verbatim>\<open>get_random_font(font_paths, exclude_list)\<close>: the candidates are the paths that are
  not excluded, each once (a Python set, in some order; the draw reaches every one of
  them).
\<close>

definition get_random_font ::
  "environment \<Rightarrow> string list \<Rightarrow> string list \<Rightarrow> rng \<Rightarrow> string option \<times> rng" where
  "get_random_font env paths exclude_list g =
     (let available_fonts = filter (\<lambda>f. f \<notin> set exclude_list) (remdups paths)
      in if available_fonts = []
         then (case fallback_font env of
                 None \<Rightarrow> (None, g)
               | Some fallback_path \<Rightarrow>
                   if fallback_path \<noteq> [] then (Some fallback_path, g) else (None, g))
         else (case choice available_fonts g of (f, g') \<Rightarrow> (Some f, g')))"

text \<open>Lines 185-191, the font of one attempt.\<close>

definition select_font ::
  "environment \<Rightarrow> params \<Rightarrow> string list \<Rightarrow> rng \<Rightarrow> string option \<times> rng" where
  "select_font env p failed_fonts g =
     (if p_selected_font p \<noteq> ''random''
      then (if selected_font_exists env
            then (Some (path_join (p_font_dir p) (p_selected_font p)), g)
            else get_random_font env (p_font_paths p) failed_fonts g)
      else get_random_font env (p_font_paths p) failed_fonts g)"

text \<open>A frame, as far as the model keeps it: the snippet drawn and the font used.\<close>

record frame =
  frame_text :: snippet
  frame_font :: string

text \<open>
  Lines 181-234, the attempts for one frame. \<^verbatim>\<open>random.uniform(-5, 5)\<close> takes one draw.
  After a successful render line 223 computes
  \<^verbatim>\<open>frame_num % (total_frames // 10)\<close>, a ZeroDivisionError when the divisor is 0;
  the \<^verbatim>\<open>except\<close> of line 228 catches the two font errors only.
\<close>

function render_frame ::
  "environment \<Rightarrow> params \<Rightarrow> snippet \<Rightarrow> nat \<Rightarrow> nat \<Rightarrow> frame list \<Rightarrow> string list \<Rightarrow> world
     \<Rightarrow> failure + (frame list \<times> string list \<times> world)" where
  "render_frame env p cur frame_num font_retries frames failed_fonts w =
     (if font_retries < MAX_FONT_RETRIES_PER_FRAME
      then (case select_font env p failed_fonts (w_rng w) of
              (None, g1) \<Rightarrow> Inl (Message No_usable_fonts)
            | (Some current_font_path, g1) \<Rightarrow>
                (case draw g1 of
                   (position_jitter, g2) \<Rightarrow>
                     (case next_render (w\<lparr>w_rng := g2\<rparr>) of
                        (Rendered, w') \<Rightarrow>
                          if total_frames (p_fps p) (p_duration p) div 10 = 0
                          then Inl (Unhandled ZeroDivisionError)
                          else Inr (frames @ [\<lparr>frame_text = cur,
                                                frame_font = current_font_path\<rparr>],
                                    failed_fonts, w')
                      | (Raises_FontLoadError, w') \<Rightarrow>
                          render_frame env p cur frame_num (font_retries + 1) frames
                            (List.insert current_font_path failed_fonts) w'
                      | (Raises_FontDrawError, w') \<Rightarrow>
                          render_frame env p cur frame_num (font_retries + 1) frames
                            (List.insert current_font_path failed_fonts) w'
                      | (Raises_other, w') \<Rightarrow> Inl (Unhandled Other_exception))))
      else Inl (Message (Frame_failed (frame_num + 1))))"
  by pat_completeness auto
termination
  by (relation "measure (\<lambda>(env, p, cur, n, font_retries, fs, ff, w).
        MAX_FONT_RETRIES_PER_FRAME - font_retries)") auto

text \<open>Lines 136-148 of \<^verbatim>\<open>generate_video\<close>: the second test of an AI reply.\<close>

definition video_line_bad :: "string \<Rightarrow> bool" where
  "video_line_bad line \<longleftrightarrow>
     length line < 40 \<or> \<not> contains '' '' line \<or> length (split_ws line) < 5 \<or>
     \<not> (contains ''.'' line \<or> contains ''!'' line \<or> contains ''?'' line)"

text \<open>Lines 125-154, \<^verbatim>\<open>for attempt in range(max_ai_attempts)\<close>; the first argument
  is the number of attempts left.\<close>

fun ai_attempts ::
  "nat \<Rightarrow> string \<Rightarrow> int \<Rightarrow> provider_reply list \<Rightarrow> gen_result option \<times> provider_reply list" where
  "ai_attempts 0 hl mn replies = (None, replies)"
| "ai_attempts (Suc n) hl mn replies =
     (case next_reply replies of
        (reply, rest) \<Rightarrow>
          (case generate_ai_text_snippet True hl mn reply of
             (None, hl_index) \<Rightarrow> ai_attempts n hl mn rest
           | (Some ls, hl_index) \<Rightarrow>
               if ls \<noteq> [] \<and> hl_index \<noteq> -1 \<and> list_all (\<lambda>line. \<not> video_line_bad line) ls
               then (Some (Some ls, hl_index), rest)
               else ai_attempts n hl mn rest))"

text \<open>Lines 159 and 164, the call of the procedural generator.\<close>

definition random_request :: "params \<Rightarrow> world \<Rightarrow> py_exception + (gen_result \<times> world)" where
  "random_request p w =
     (case generate_random_text_snippet (p_highlighted_text p) (p_min_lines p) (p_max_lines p)
             (w_rng w) of
        Inl e \<Rightarrow> Inl e
      | Inr (r, g) \<Rightarrow> Inr (r, w\<lparr>w_rng := g\<rparr>))"

text \<open>
  Lines 115-166: the text request of one pass, made when new text is needed and the pool
  is below its size. An AI reply that passed both tests is appended as it is, which is
  what \<open>append_if_valid\<close> does with it; without a request the result is not read.
\<close>

definition text_request ::
  "params \<Rightarrow> pool_state \<Rightarrow> world \<Rightarrow> py_exception + (gen_result \<times> world)" where
  "text_request p st w =
     (if needs_new_text module_config st \<and> length (text_pool st) < pool_size module_config
      then (if p_ai_ready p
            then (case ai_attempts 3 (p_highlighted_text p) (p_min_lines p) (w_replies w) of
                    (Some r, rest) \<Rightarrow> Inr (r, w\<lparr>w_replies := rest\<rparr>)
                  | (None, rest) \<Rightarrow> random_request p (w\<lparr>w_replies := rest\<rparr>))
            else random_request p w)
      else Inr ((None, -1), w))"

text \<open>Lines 112-236, \<^verbatim>\<open>while frame_num < total_frames\<close>.\<close>

function frame_loop ::
  "environment \<Rightarrow> params \<Rightarrow> nat \<Rightarrow> pool_state \<Rightarrow> frame list \<Rightarrow> string list \<Rightarrow> world
     \<Rightarrow> failure + (frame list \<times> pool_state \<times> string list \<times> world)" where
  "frame_loop env p frame_num st frames failed_fonts w =
     (if int frame_num < total_frames (p_fps p) (p_duration p)
      then (case text_request p st w of
              Inl e \<Rightarrow> Inl (Unhandled e)
            | Inr (r, w1) \<Rightarrow>
                (case pool_tick module_config st r of
                   Inl e \<Rightarrow> Inl e
                 | Inr (cur, st1) \<Rightarrow>
                     (case render_frame env p cur frame_num 0 frames failed_fonts w1 of
                        Inl e \<Rightarrow> Inl e
                      | Inr (frames', failed', w2) \<Rightarrow>
                          frame_loop env p (frame_num + 1) st1 frames' failed' w2)))
      else Inr (frames, st, failed_fonts, w))"
  by pat_completeness auto
termination
  by (relation "measure (\<lambda>(env, p, frame_num, st, fs, ff, w).
        nat (total_frames (p_fps p) (p_duration p)) - frame_num)") auto

text \<open>
  \<^verbatim>\<open>generate_video\<close>: the fonts found (lines 96-98), the loop, the frames (lines
  239-241) and the encoder (lines 252-281), which returns the file name or the message of
  the exception it caught. The result is the list of frames written to the file.
\<close>

definition generate_video :: "environment \<Rightarrow> params \<Rightarrow> world \<Rightarrow> failure + frame list" where
  "generate_video env p w =
     (if p_font_paths p = [] then Inl (Message No_fonts_found)
      else (case frame_loop env p 0 initial_pool [] [] w of
              Inl e \<Rightarrow> Inl e
            | Inr (frames, st, failed, w') \<Rightarrow>
                if frames = [] then Inl (Message No_frames)
                else if encoder_ok env then Inr frames
                else Inl (Message Encoding_failed)))"


declare render_frame.simps [simp del]

section \<open>The invariant of the snippet pool\<close>

text \<open>
  A snippet is well formed when its highlight index is an index of its lines; the pool is
  in order when the cursor is an index of the pool (if the pool has an entry) and every
  entry is well formed.
\<close>

definition snippet_ok :: "snippet \<Rightarrow> bool" where
  "snippet_ok s \<longleftrightarrow> 0 \<le> highlight_index s \<and> highlight_index s < int (length (lines s))"

definition pool_inv :: "pool_state \<Rightarrow> bool" where
  "pool_inv st \<longleftrightarrow>
     (text_pool st \<noteq> [] \<longrightarrow> current_pool_index st < length (text_pool st)) \<and>
     list_all snippet_ok (text_pool st)"

section \<open>Sentence structures as lists of pieces\<close>

text \<open>
  A sentence structure read as a list of pieces: literal text without braces, and the
  placeholders.
\<close>

datatype token = Lit string | Hole category

fun token_text :: "token \<Rightarrow> string" where
  "token_text (Lit s) = s"
| "token_text (Hole c) = placeholder c"

definition render :: "token list \<Rightarrow> string" where
  "render ts = concat (map token_text ts)"

fun lit_ok :: "token \<Rightarrow> bool" where
  "lit_ok (Lit s) \<longleftrightarrow> CHR ''{'' \<notin> set s"
| "lit_ok (Hole c) \<longleftrightarrow> True"

text \<open>The pieces after the placeholders of the categories \<open>cs\<close> have been replaced.\<close>

fun filled_token :: "category list \<Rightarrow> token \<Rightarrow> token \<Rightarrow> bool" where
  "filled_token cs (Lit s) t' \<longleftrightarrow> t' = Lit s"
| "filled_token cs (Hole c) t' \<longleftrightarrow>
     (if c \<in> set cs then (\<exists>w. w \<in> set (words c) \<and> t' = Lit w) else t' = Hole c)"

text \<open>The shortest and the longest word of each list.\<close>

fun cat_min :: "category \<Rightarrow> nat" where
  "cat_min Noun = 3" | "cat_min Verb = 2" | "cat_min Adj = 3" | "cat_min Adv = 3"
| "cat_min Prep = 2" | "cat_min Pronoun = 1" | "cat_min Det = 1"

fun cat_max :: "category \<Rightarrow> nat" where
  "cat_max Noun = 10" | "cat_max Verb = 7" | "cat_max Adj = 9" | "cat_max Adv = 10"
| "cat_max Prep = 10" | "cat_max Pronoun = 10" | "cat_max Det = 7"

fun token_min :: "token \<Rightarrow> nat" where
  "token_min (Lit s) = length s"
| "token_min (Hole c) = cat_min c"

fun token_max :: "token \<Rightarrow> nat" where
  "token_max (Lit s) = length s"
| "token_max (Hole c) = cat_max c"

text \<open>
  The text \<open>K\<close> stands in \<open>s\<close> with at most 40 characters before it, and \<open>s\<close> goes on
  after it up to a final full stop.
\<close>

definition placed :: "string \<Rightarrow> string \<Rightarrow> bool" where
  "placed K s \<longleftrightarrow> (\<exists>a b. s = a @ K @ b \<and> length a \<le> 40 \<and> b \<noteq> [] \<and> last b = CHR ''.'')"

text \<open>
  \<open>P\<close> clashes with \<open>K\<close> when an occurrence of \<open>P\<close> could end strictly inside an
  occurrence of \<open>K\<close>: some proper, non-empty beginning of \<open>K\<close> ends with \<open>P\<close>, or \<open>P\<close>
  ends with it.
\<close>

definition clash :: "string \<Rightarrow> string \<Rightarrow> bool" where
  "clash P K \<longleftrightarrow>
     list_ex (\<lambda>m. endswith P (take m K) \<or> endswith (take m K) P) [1..<length K]"

text \<open>The five structures of a multi-word highlight (lines 142-148), piece by piece;
  lemma \<open>phrase_structures_tokens\<close> shows that they render to \<open>phrase_structures\<close>.\<close>

definition phrase_tokens :: "string \<Rightarrow> token list list" where
  "phrase_tokens hl =
     [[Lit ''The '', Hole Adj, Lit '' '', Hole Noun, Lit '' '', Lit (hl @ '' ''), Hole Prep,
       Lit '' '', Hole Det, Lit '' '', Hole Adj, Lit '' '', Hole Noun, Lit ''.''],
      [Hole Det, Lit '' '', Hole Adj, Lit '' '', Hole Noun, Lit '' '', Hole Adv, Lit '' '',
       Lit (hl @ '' ''), Hole Prep, Lit '' '', Hole Det, Lit '' '', Hole Noun, Lit ''.''],
      [Lit ''When '', Lit (hl @ '', ''), Hole Det, Lit '' '', Hole Adj, Lit '' '', Hole Noun,
       Lit '' '', Hole Verb, Lit '' '', Hole Adv, Lit '' '', Hole Prep, Lit '' '', Hole Det,
       Lit '' '', Hole Noun, Lit ''.''],
      [Hole Pronoun, Lit '' '', Hole Verb, Lit '' that '', Lit (hl @ '' ''), Hole Verb,
       Lit '' '', Hole Adv, Lit '' '', Hole Prep, Lit '' '', Hole Det, Lit '' '', Hole Adj,
       Lit '' '', Hole Noun, Lit ''.''],
      [Lit ''Because of '', Lit (hl @ '', ''), Hole Det, Lit '' '', Hole Adj, Lit '' '',
       Hole Noun, Lit '' '', Hole Verb, Lit '' '', Hole Adv, Lit '' '', Hole Prep, Lit '' '',
       Hole Det, Lit '' '', Hole Noun, Lit ''.'']]"

section \<open>Properties of the snippet pool\<close>

lemma append_if_valid_ok:
  "request_ok r \<Longrightarrow> append_if_valid pool r = pool @ [snippet_of r]"
  by (cases r) (auto simp: request_ok_def append_if_valid_def snippet_of_def split: option.splits)

lemma pool_tick_step:
  assumes P: "1 \<le> pool_size cfg" and F: "1 \<le> frames_per_snippet cfg"
    and ok: "request_ok (supply (Suc k))"
    and fw: "frames_with_current_text st = k mod frames_per_snippet cfg + 1"
    and ix: "current_pool_index st = (k div frames_per_snippet cfg) mod pool_size cfg"
    and tp: "text_pool st = map (created cfg supply)
               [0..<min (pool_size cfg) (k div frames_per_snippet cfg + 1)]"
  shows "\<exists>st'. pool_tick cfg st (supply (Suc k)) =
            Inr (created cfg supply ((Suc k div frames_per_snippet cfg) mod pool_size cfg), st')
          \<and> frames_with_current_text st' = Suc k mod frames_per_snippet cfg + 1
          \<and> current_pool_index st' = (Suc k div frames_per_snippet cfg) mod pool_size cfg
          \<and> text_pool st' = map (created cfg supply)
               [0..<min (pool_size cfg) (Suc k div frames_per_snippet cfg + 1)]"
proof -
  define F where "F = frames_per_snippet cfg"
  define Pz where "Pz = pool_size cfg"
  define q where "q = k div F"
  have Fpos: "0 < F" and Ppos: "0 < Pz" using P F by (simp_all add: F_def Pz_def)
  have len: "length (text_pool st) = min Pz (q + 1)"
    by (simp add: tp F_def Pz_def q_def)
  have ne: "text_pool st \<noteq> []" using len Ppos by (auto simp: min_def split: if_splits)
  show ?thesis
  proof (cases "Suc (k mod F) = F")
    case True
    then have d: "Suc k div F = q + 1" and m: "Suc k mod F = 0"
      by (simp_all add: div_Suc mod_Suc q_def)
    have need: "needs_new_text cfg st"
      using True fw by (simp add: needs_new_text_def F_def)
    have k1: "Suc k = (q + 1) * F"
      using True by (metis d m add.commute add_cancel_left_left div_mult_mod_eq mult.commute)
    show ?thesis
    proof (cases "q + 1 < Pz")
      case lt: True
      then have l: "length (text_pool st) = q + 1" using len by simp
      have g: "text_pool (grow cfg st (supply (Suc k))) =
                 map (created cfg supply) [0..<q + 2]"
        using lt l ok tp k1
        by (simp add: grow_def append_if_valid_ok created_def F_def Pz_def q_def min_def)
      have ixq: "current_pool_index st = q" using ix lt by (simp add: F_def Pz_def q_def)
      have mods: "(q + 1) mod Pz = q + 1" using lt by simp
      have mn: "min Pz (Suc k div F + 1) = q + 2" using lt d by simp
      have st1: "rotate (grow cfg st (supply (Suc k))) =
          Inr ((grow cfg st (supply (Suc k)))\<lparr>current_pool_index := q + 1,
                   frames_with_current_text := 0\<rparr>)"
        using g ixq lt l by (simp add: rotate_def grow_def Pz_def)
      show ?thesis
        using need g d m mods mn
        unfolding pool_tick_def st1 F_def[symmetric] Pz_def[symmetric]
        by (simp add: current_text_def nth_append)
    next
      case ge: False
      then have l: "length (text_pool st) = Pz" using len by simp
      have g: "grow cfg st (supply (Suc k)) = st"
        using l by (simp add: grow_def Pz_def)
      have ixm: "(q mod Pz + 1) mod Pz = (q + 1) mod Pz"
        by (simp add: mod_Suc_eq)
      have lt': "(q + 1) mod Pz < Pz" using Ppos by simp
      have tpP: "text_pool st = map (created cfg supply) [0..<Pz]"
        using tp ge by (simp add: F_def[symmetric] Pz_def[symmetric] q_def[symmetric] min_def)
      have mn: "min Pz (Suc k div F + 1) = Pz" using ge d by simp
      show ?thesis
        using need g ne l ix d m ixm lt' tpP mn
        unfolding pool_tick_def F_def[symmetric] Pz_def[symmetric] q_def[symmetric]
        by (simp add: rotate_def current_text_def)
    qed
  next
    case False
    then have d: "Suc k div F = q" and m: "Suc k mod F = Suc (k mod F)"
      by (simp_all add: div_Suc mod_Suc q_def)
    have "k mod F < F" using Fpos by simp
    with False have "Suc (k mod F) < F" by simp
    then have need: "\<not> needs_new_text cfg st"
      using fw ne by (simp add: needs_new_text_def F_def)
    have lt': "q mod Pz < length (text_pool st)"
      using len Ppos by (metis Suc_eq_plus1 less_Suc_eq_le min_less_iff_conj mod_less_divisor
          mod_less_eq_dividend)
    have nth: "text_pool st ! (q mod Pz) = created cfg supply (q mod Pz)"
      using lt' tp by (simp add: F_def[symmetric] Pz_def[symmetric] q_def[symmetric])
    show ?thesis
      using need lt' ix d m fw tp nth
      by (simp add: pool_tick_def current_text_def F_def[symmetric]
              Pz_def[symmetric] q_def[symmetric])
  qed
qed


lemma ticks_one:
  assumes P: "1 \<le> pool_size cfg" and ok: "request_ok (supply 0)"
  shows "ticks cfg supply (Suc 0) =
           Inr ([created cfg supply 0],
                \<lparr>text_pool = [created cfg supply 0], current_pool_index = 0,
                 frames_with_current_text = 1\<rparr>)"
  using P ok
  by (simp add: pool_tick_def needs_new_text_def initial_pool_def grow_def rotate_def
        current_text_def append_if_valid_ok created_def)

lemma ticks_Suc_state:
  assumes P: "1 \<le> pool_size cfg" and F: "1 \<le> frames_per_snippet cfg"
    and ok: "\<forall>n. request_ok (supply n)"
  shows "\<exists>st. ticks cfg supply (Suc k) =
            Inr (map (\<lambda>j. created cfg supply ((j div frames_per_snippet cfg) mod pool_size cfg))
                   [0..<Suc k], st)
          \<and> frames_with_current_text st = k mod frames_per_snippet cfg + 1
          \<and> current_pool_index st = (k div frames_per_snippet cfg) mod pool_size cfg
          \<and> text_pool st = map (created cfg supply)
               [0..<min (pool_size cfg) (k div frames_per_snippet cfg + 1)]"
proof (induction k)
  case 0
  have "min (pool_size cfg) (Suc 0) = Suc 0" using P by simp
  then show ?case
    using P F ok by (simp add: ticks_one del: ticks.simps)
next
  case (Suc k)
  then obtain st where
    t: "ticks cfg supply (Suc k) =
            Inr (map (\<lambda>j. created cfg supply ((j div frames_per_snippet cfg) mod pool_size cfg))
                   [0..<Suc k], st)"
    and fw: "frames_with_current_text st = k mod frames_per_snippet cfg + 1"
    and ix: "current_pool_index st = (k div frames_per_snippet cfg) mod pool_size cfg"
    and tp: "text_pool st = map (created cfg supply)
               [0..<min (pool_size cfg) (k div frames_per_snippet cfg + 1)]"
    by blast
  from ok have ok': "request_ok (supply (Suc k))" by simp
  from pool_tick_step[OF P F ok' fw ix tp] obtain st' where
    pt: "pool_tick cfg st (supply (Suc k)) =
            Inr (created cfg supply ((Suc k div frames_per_snippet cfg) mod pool_size cfg), st')"
    and rest: "frames_with_current_text st' = Suc k mod frames_per_snippet cfg + 1"
      "current_pool_index st' = (Suc k div frames_per_snippet cfg) mod pool_size cfg"
      "text_pool st' = map (created cfg supply)
               [0..<min (pool_size cfg) (Suc k div frames_per_snippet cfg + 1)]"
    by blast
  have "ticks cfg supply (Suc (Suc k)) =
          Inr (map (\<lambda>j. created cfg supply ((j div frames_per_snippet cfg) mod pool_size cfg))
                   [0..<Suc (Suc k)], st')"
    using t pt by (subst ticks.simps(2)) simp
  with rest show ?case by blast
qed

lemma ceil_div_Suc:
  assumes "1 \<le> (F::nat)"
  shows "(Suc k + F - 1) div F = k div F + 1"
proof -
  have "Suc k + F - 1 = k + F" by simp
  moreover have "(k + F) div F = k div F + 1" using assms by simp
  ultimately show ?thesis by simp
qed

text \<open>
  Claim C3. For every pool size and every number of frames per snippet, both at least 1,
  and with every text request successful, \<open>k\<close> passes of the loop produce \<open>k\<close> frames
  and leave \<open>min pool_size (ceiling (k / frames_per_snippet))\<close> snippets in the pool;
  the ceiling is written \<open>(k + frames_per_snippet - 1) div frames_per_snippet\<close>.
\<close>

theorem pool_length_after_k_frames:
  assumes "1 \<le> pool_size cfg" and "1 \<le> frames_per_snippet cfg"
    and "\<forall>n. request_ok (supply n)"
  shows "\<exists>used st. ticks cfg supply k = Inr (used, st) \<and> length used = k \<and>
           length (text_pool st) =
             min (pool_size cfg) ((k + frames_per_snippet cfg - 1) div frames_per_snippet cfg)"
proof (cases k)
  case 0
  then show ?thesis using assms(2) by (simp add: initial_pool_def)
next
  case (Suc j)
  from ticks_Suc_state[OF assms, of j] obtain st where
    t: "ticks cfg supply (Suc j) =
            Inr (map (\<lambda>j. created cfg supply ((j div frames_per_snippet cfg) mod pool_size cfg))
                   [0..<Suc j], st)"
    and tp: "text_pool st = map (created cfg supply)
               [0..<min (pool_size cfg) (j div frames_per_snippet cfg + 1)]"
    by blast
  have "length (text_pool st) = min (pool_size cfg) (j div frames_per_snippet cfg + 1)"
    by (simp add: tp)
  then show ?thesis
    using t Suc ceil_div_Suc[OF assms(2), of j] by (simp del: ticks.simps)
qed

theorem pool_length_after_k_frames_witness:
  "1 \<le> pool_size module_config \<and> 1 \<le> frames_per_snippet module_config \<and>
   (\<forall>n. request_ok ((\<lambda>n. (Some [''text''], 0)) n)) \<and>
   (\<exists>used st. ticks module_config (\<lambda>n. (Some [''text''], 0)) 7 = Inr (used, st) \<and>
      length used = 7 \<and> length (text_pool st) = 3)"
proof -
  have a: "1 \<le> pool_size module_config" and b: "1 \<le> frames_per_snippet module_config"
    by (simp_all add: module_config_def TEXT_POOL_SIZE_def FRAMES_PER_SNIPPET_def)
  have c: "\<forall>n. request_ok ((\<lambda>n. (Some [''text''], 0)) n)" by (simp add: request_ok_def)
  have "min (pool_size module_config)
          ((7 + frames_per_snippet module_config - 1) div frames_per_snippet module_config) = 3"
    by (simp add: module_config_def TEXT_POOL_SIZE_def FRAMES_PER_SNIPPET_def)
  with pool_length_after_k_frames[OF a b, of "\<lambda>n. (Some [''text''], 0)" 7] a b c
  show ?thesis by (simp del: ticks.simps)
qed

text \<open>
  Claim C4. With fps 10 and duration 5 the loop asks for 50 frames. With the module's
  constants (3 frames per snippet, pool of 10) and every text request successful, the
  50 passes succeed, frame \<open>j\<close> is drawn from pool entry \<open>(j div 3) mod 10\<close>, and the pool
  holds the ten snippets in the order of their creation, entry \<open>m\<close> being the one
  requested in pass \<open>3 * m\<close>: frames 0-2 use snippet 0, frames 3-5 snippet 1, and so on
  until the pool is full at frame 27 and the cursor wraps around at frame 30.
\<close>

theorem scenario_A_frames:
  assumes "\<forall>n. request_ok (supply n)"
  shows "total_frames 10 5 = 50 \<and>
         (\<exists>st. ticks module_config supply (nat (total_frames 10 5)) =
                 Inr (map (\<lambda>j. text_pool st ! ((j div 3) mod 10)) [0..<50], st) \<and>
               text_pool st = map (\<lambda>m. snippet_of (supply (m * 3))) [0..<10])"
proof -
  have P: "1 \<le> pool_size module_config" and F: "1 \<le> frames_per_snippet module_config"
    by (simp_all add: module_config_def TEXT_POOL_SIZE_def FRAMES_PER_SNIPPET_def)
  have cf: "pool_size module_config = 10" "frames_per_snippet module_config = 3"
    by (simp_all add: module_config_def TEXT_POOL_SIZE_def FRAMES_PER_SNIPPET_def)
  from ticks_Suc_state[OF P F assms, of 49] obtain st where
    t: "ticks module_config supply (Suc 49) =
          Inr (map (\<lambda>j. created module_config supply ((j div 3) mod 10)) [0..<Suc 49], st)"
    and tp: "text_pool st = map (created module_config supply) [0..<min 10 (49 div 3 + 1)]"
    unfolding cf by blast
  have tp': "text_pool st = map (\<lambda>m. snippet_of (supply (m * 3))) [0..<10]"
    using tp by (simp add: created_def cf)
  have nth: "\<And>m. m < 10 \<Longrightarrow> text_pool st ! m = created module_config supply m"
    using tp' by (simp add: created_def cf)
  have "map (\<lambda>j. created module_config supply ((j div 3) mod 10)) [0..<Suc 49] =
        map (\<lambda>j. text_pool st ! ((j div 3) mod 10)) [0..<50]"
    by (rule map_cong) (simp_all add: nth)
  with t have "ticks module_config supply 50 =
                 Inr (map (\<lambda>j. text_pool st ! ((j div 3) mod 10)) [0..<50], st)"
    by (simp del: ticks.simps)
  moreover have "total_frames 10 5 = 50" by (simp add: total_frames_def)
  ultimately show ?thesis using tp' by (auto simp del: ticks.simps)
qed

theorem scenario_A_frames_witness:
  "(\<forall>n. request_ok (Some [''text''], int n)) \<and> total_frames 10 5 = 50 \<and>
   (\<exists>st. ticks module_config (\<lambda>n. (Some [''text''], int n)) (nat (total_frames 10 5)) =
           Inr (map (\<lambda>j. text_pool st ! ((j div 3) mod 10)) [0..<50], st) \<and>
         text_pool st = map (\<lambda>m. snippet_of (Some [''text''], int (m * 3))) [0..<10])"
proof -
  have ok: "\<forall>n. request_ok ((\<lambda>n. (Some [''text''], int n)) n)"
    by (simp add: request_ok_def)
  from scenario_A_frames[OF ok] ok show ?thesis by (auto simp del: ticks.simps)
qed

text \<open>
  Claim C7. In a pass that needs new text, a request that fails (its result does not pass
  the check of line 160) ends the run with the message "Failed to generate valid text
  content." when the pool is empty; when the pool holds a snippet the pass does not fail:
  the pool is unchanged, the cursor moves on cyclically and the frame is drawn from the
  snippet under the cursor.
\<close>

theorem text_failure_handling:
  assumes "\<not> request_ok r" and "needs_new_text cfg st"
  shows "(text_pool st = [] \<longrightarrow> pool_tick cfg st r = Inl (Message Failed_text)) \<and>
         (text_pool st \<noteq> [] \<longrightarrow>
            (\<exists>st'. pool_tick cfg st r =
                     Inr (text_pool st ! ((current_pool_index st + 1) mod length (text_pool st)), st') \<and>
                   text_pool st' = text_pool st \<and>
                   current_pool_index st' = (current_pool_index st + 1) mod length (text_pool st) \<and>
                   frames_with_current_text st' = 1))"
proof -
  have a: "append_if_valid (text_pool st) r = text_pool st"
    using assms(1) by (cases r) (auto simp: request_ok_def append_if_valid_def split: option.splits)
  have g: "text_pool (grow cfg st r) = text_pool st"
      "current_pool_index (grow cfg st r) = current_pool_index st"
    by (simp_all add: grow_def a)
  show ?thesis
    using assms(2) g by (simp add: pool_tick_def rotate_def current_text_def)
qed

theorem text_failure_handling_witness:
  "\<not> request_ok (None, -1) \<and> needs_new_text module_config initial_pool \<and>
   text_pool initial_pool = [] \<and>
   pool_tick module_config initial_pool (None, -1) = Inl (Message Failed_text) \<and>
   needs_new_text module_config
     \<lparr>text_pool = [\<lparr>lines = [''a''], highlight_index = 0\<rparr>, \<lparr>lines = [''b''], highlight_index = 0\<rparr>],
      current_pool_index = 0, frames_with_current_text = 3\<rparr> \<and>
   (\<exists>st'. pool_tick module_config
       \<lparr>text_pool = [\<lparr>lines = [''a''], highlight_index = 0\<rparr>, \<lparr>lines = [''b''], highlight_index = 0\<rparr>],
      current_pool_index = 0, frames_with_current_text = 3\<rparr> (None, -1) =
         Inr (\<lparr>lines = [''b''], highlight_index = 0\<rparr>, st') \<and> current_pool_index st' = 1)"
proof -
  let ?st = "\<lparr>text_pool = [\<lparr>lines = [''a''], highlight_index = 0\<rparr>, \<lparr>lines = [''b''], highlight_index = 0\<rparr>],
      current_pool_index = 0, frames_with_current_text = 3\<rparr>"
  have f: "\<not> request_ok (None, -1)" by (simp add: request_ok_def)
  have n1: "needs_new_text module_config initial_pool"
    by (simp add: needs_new_text_def initial_pool_def)
  have n2: "needs_new_text module_config ?st"
    by (simp add: needs_new_text_def module_config_def FRAMES_PER_SNIPPET_def)
  have e: "text_pool initial_pool = []" by (simp add: initial_pool_def)
  from text_failure_handling[OF f n1] text_failure_handling[OF f n2] f n1 n2 e
  show ?thesis by auto
qed

section \<open>The position of the highlight\<close>

text \<open>The horizontal position is the centred one, whatever the inputs.\<close>

lemma layout_x_centred:
  "highlight_target_x (compute_layout w h n i k fs v m b) =
     (real_of_int w - highlight_width_bold (compute_layout w h n i k fs v m b)) / 2"
  by (simp add: compute_layout_def Let_def)

text \<open>
  Claim C1. The claim puts the top of the highlight box within one pixel of
  \<open>(H - hlHeight) / 2\<close>. For a 1024 by 1024 frame at low text density (font size 61,
  spread factor 1.5), ten lines with the highlight in the first, a font with ascent 57 and
  descent 15, and a highlight 640 wide and 44 high in the bold font, the code draws the box
  at \<open>y = 10\<close>; the centred position is 490.
\<close>

theorem highlight_not_centred_vertically:
  "highlight_target_y
     (compute_layout 1024 1024 10 0 24 61 (3/2) (Metrics 57 15)
        \<lparr>bold_length = 640, bbox_top = 0, bbox_bottom = 44\<rparr>) = 10 \<and>
   highlight_height_bold
     (compute_layout 1024 1024 10 0 24 61 (3/2) (Metrics 57 15)
        \<lparr>bold_length = 640, bbox_top = 0, bbox_bottom = 44\<rparr>) = 44 \<and>
   (1024 - 44) / 2 = (490::real)"
  by (simp add: compute_layout_def compute_line_height_def py_int_def Let_def)

section \<open>Font retries and the frame loop\<close>








lemma render_frame_exhausted:
  "\<not> r < MAX_FONT_RETRIES_PER_FRAME \<Longrightarrow>
   render_frame env p cur n r fs ff w = Inl (Message (Frame_failed (n + 1)))"
  by (subst render_frame.simps) simp

lemma render_frame_no_font:
  "r < MAX_FONT_RETRIES_PER_FRAME \<Longrightarrow> select_font env p ff (w_rng w) = (None, g1) \<Longrightarrow>
   render_frame env p cur n r fs ff w = Inl (Message No_usable_fonts)"
  by (subst render_frame.simps) simp

text \<open>
  Claim C9. With fps 1 and duration 5 (both within the documented bounds), one usable
  font, procedural text and every render successful, the first frame is rendered and then
  line 223 divides by \<^verbatim>\<open>total_frames // 10 = 0\<close>: the ZeroDivisionError is not caught
  and leaves \<^verbatim>\<open>generate_video\<close>, which returns neither a file name nor a message.
\<close>

theorem short_video_raises:
  "generate_video
     \<lparr>selected_font_exists = False, fallback_font = None, encoder_ok = True\<rparr>
     \<lparr>p_fps = 1, p_duration = 5, p_highlighted_text = ''Better Gaming Experience'',
      p_min_lines = 12, p_max_lines = 16, p_selected_font = ''random'', p_font_dir = ''fonts'',
      p_font_paths = [''fonts/DejaVuSans.ttf''], p_ai_ready = False\<rparr>
     \<lparr>w_rng = [], w_renders = [], w_replies = []\<rparr>
   = Inl (Unhandled ZeroDivisionError)"
  by code_simp
(* end of evaluation *)

section \<open>What the text generators guarantee\<close>

lemma randint_range: "randint a b g = Inr (x, g') \<Longrightarrow> a \<le> x \<and> x \<le> b"
proof -
  assume h: "randint a b g = Inr (x, g')"
  then have ab: "a \<le> b" by (auto simp: randint_def split: if_splits)
  obtain r g1 where d: "draw g = (r, g1)" by (cases "draw g")
  with h ab have x: "x = a + int (r mod nat (b - a + 1))" by (simp add: randint_def)
  have "r mod nat (b - a + 1) < nat (b - a + 1)" using ab by simp
  with x ab show ?thesis by linarith
qed

lemma build_lines_length: "build_lines hl h i n g = (ls, g') \<Longrightarrow> length ls = n"
  by (induction n arbitrary: i g ls g') (auto split: prod.splits if_splits)

lemma length_build_lines: "length (fst (build_lines hl h i n g)) = n"
  by (cases "build_lines hl h i n g") (simp add: build_lines_length)

lemma finalize_lines_length: "finalize_lines ls g = (fl, g') \<Longrightarrow> length fl = length ls"
  by (induction ls arbitrary: g fl g') (auto split: prod.splits)

lemma length_finalize_lines: "length (fst (finalize_lines ls g)) = length ls"
  by (cases "finalize_lines ls g") (simp add: finalize_lines_length)

lemma random_snippet_index:
  assumes "generate_random_text_snippet hl mn mx g = Inr ((Some ls, h), g')"
  shows "0 \<le> h \<and> h < int (length ls) \<and> mn \<le> int (length ls) \<and>
         int (length ls) \<le> max mn mx \<and> 1 \<le> length ls"
proof -
  from assms obtain n g1 where r1: "randint (max 1 mn) (max mn mx) g = Inr (n, g1)"
    by (auto simp: generate_random_text_snippet_def split: sum.splits)
  from assms r1 obtain h' g2 where r2: "randint 0 (n - 1) g1 = Inr (h', g2)"
    by (auto simp: generate_random_text_snippet_def split: sum.splits)
  obtain built g3 where b: "build_lines hl (nat h') 0 (nat n) g2 = (built, g3)"
    by (cases "build_lines hl (nat h') 0 (nat n) g2")
  obtain fl g4 where f: "finalize_lines built g3 = (fl, g4)"
    by (cases "finalize_lines built g3")
  from assms r1 r2 b f have eq: "ls = fl" "h = h'"
    by (auto simp: generate_random_text_snippet_def split: if_splits)
  have "length built = nat n" using length_build_lines[of hl "nat h'" 0 "nat n" g2] b by simp
  moreover have "length fl = length built" using length_finalize_lines[of built g3] f by simp
  ultimately have len: "length ls = nat n" using eq by simp
  from randint_range[OF r1] randint_range[OF r2] len eq show ?thesis by auto
qed

lemma first_index_bound: "first_index P xs = Some i \<Longrightarrow> i < length xs \<and> P (xs ! i)"
  by (induction xs arbitrary: i) (auto split: if_splits)

lemma first_index_first: "first_index P xs = Some i \<Longrightarrow> j < i \<Longrightarrow> \<not> P (xs ! j)"
proof (induction xs arbitrary: i j)
  case Nil
  then show ?case by simp
next
  case (Cons x xs)
  then show ?case by (cases j) (auto split: if_splits)
qed

lemma ai_snippet_valid:
  assumes "generate_ai_text_snippet c hl mn reply = (Some ls, h)"
  shows "0 \<le> h \<and> h < int (length ls) \<and> list_all ai_line_ok ls \<and>
         first_index (contains hl) ls = Some (nat h)"
proof -
  from assms obtain raw hi where rp: "reply = Provider_returns (Some raw) hi" and c: c
    by (auto simp: generate_ai_text_snippet_def split: if_splits provider_reply.splits option.splits)
  let ?v = "filter ai_line_ok raw"
  from assms rp c obtain i where fi: "first_index (contains hl) ?v = Some i"
      and eq: "ls = ?v" "h = int i"
    by (auto simp: generate_ai_text_snippet_def Let_def split: if_splits option.splits)
  from first_index_bound[OF fi] eq fi show ?thesis by (auto simp: list_all_iff)
qed

lemma ai_attempts_valid:
  "ai_attempts n hl mn rs = (Some r, rest) \<Longrightarrow>
     \<exists>ls h. r = (Some ls, h) \<and> ls \<noteq> [] \<and> h \<noteq> -1 \<and> 0 \<le> h \<and> h < int (length ls)"
proof (induction n arbitrary: rs)
  case 0
  then show ?case by simp
next
  case (Suc n)
  obtain reply rs' where nr: "next_reply rs = (reply, rs')" by (cases "next_reply rs")
  obtain lo h where g: "generate_ai_text_snippet True hl mn reply = (lo, h)"
    by (cases "generate_ai_text_snippet True hl mn reply")
  show ?case
  proof (cases lo)
    case None
    with Suc.prems nr g have "ai_attempts n hl mn rs' = (Some r, rest)" by simp
    from Suc.IH[OF this] show ?thesis .
  next
    case (Some ls)
    show ?thesis
    proof (cases "ls \<noteq> [] \<and> h \<noteq> -1 \<and> list_all (\<lambda>line. \<not> video_line_bad line) ls")
      case True
      with Suc.prems nr g Some have "r = (Some ls, h)" by simp
      with ai_snippet_valid[of True hl mn reply ls h] g Some True show ?thesis by simp
    next
      case False
      with Suc.prems nr g Some have "ai_attempts n hl mn rs' = (Some r, rest)" by auto
      from Suc.IH[OF this] show ?thesis .
    qed
  qed
qed

lemma random_request_index:
  assumes "random_request p w = Inr (r, w1)" and "request_ok r"
  shows "0 \<le> snd r \<and> snd r < int (length (the (fst r)))"
proof -
  from assms(1) obtain g where
    g: "generate_random_text_snippet (p_highlighted_text p) (p_min_lines p) (p_max_lines p)
          (w_rng w) = Inr (r, g)"
    by (auto simp: random_request_def split: sum.splits)
  from assms(2) obtain ls h where r: "r = (Some ls, h)"
    by (cases r) (auto simp: request_ok_def split: option.splits)
  from random_snippet_index[OF g[unfolded r]] r show ?thesis by simp
qed

lemma text_request_index:
  assumes "text_request p st w = Inr (r, w1)" and "request_ok r"
  shows "0 \<le> snd r \<and> snd r < int (length (the (fst r)))"
proof (cases "needs_new_text module_config st \<and> length (text_pool st) < pool_size module_config")
  case False
  with assms(1) have "r = (None, -1)" by (auto simp: text_request_def)
  with assms(2) show ?thesis by (simp add: request_ok_def)
next
  case need: True
  show ?thesis
  proof (cases "p_ai_ready p")
    case False
    with need assms(1) have "random_request p w = Inr (r, w1)" by (simp add: text_request_def)
    from random_request_index[OF this assms(2)] show ?thesis .
  next
    case True
    obtain ro rest where a: "ai_attempts 3 (p_highlighted_text p) (p_min_lines p) (w_replies w)
                              = (ro, rest)"
      by (cases "ai_attempts 3 (p_highlighted_text p) (p_min_lines p) (w_replies w)")
    show ?thesis
    proof (cases ro)
      case None
      with need True a assms(1) have "random_request p (w\<lparr>w_replies := rest\<rparr>) = Inr (r, w1)"
        by (simp add: text_request_def)
      from random_request_index[OF this assms(2)] show ?thesis .
    next
      case (Some r')
      with need True a assms(1) have "r = r'" by (simp add: text_request_def)
      with ai_attempts_valid[OF a[unfolded Some]] show ?thesis by auto
    qed
  qed
qed

lemma pool_tick_inv:
  assumes inv: "pool_inv st"
    and r: "request_ok r \<Longrightarrow> 0 \<le> snd r \<and> snd r < int (length (the (fst r)))"
    and t: "pool_tick cfg st r = Inr (cur, st1)"
  shows "pool_inv st1 \<and> current_pool_index st1 < length (text_pool st1) \<and>
         cur = text_pool st1 ! current_pool_index st1 \<and> snippet_ok cur"
proof -
  have app: "list_all snippet_ok (append_if_valid (text_pool st) r)"
  proof (cases "request_ok r")
    case True
    with r have "snippet_ok (snippet_of r)" by (simp add: snippet_ok_def snippet_of_def)
    with inv True show ?thesis by (simp add: append_if_valid_ok pool_inv_def)
  next
    case False
    then have "append_if_valid (text_pool st) r = text_pool st"
      by (cases r) (auto simp: request_ok_def append_if_valid_def split: option.splits)
    with inv show ?thesis by (simp add: pool_inv_def)
  qed
  have g: "list_all snippet_ok (text_pool (grow cfg st r))"
    using app inv by (simp add: grow_def pool_inv_def)
  show ?thesis
  proof (cases "needs_new_text cfg st")
    case True
    let ?g = "grow cfg st r"
    from t True have ne: "text_pool ?g \<noteq> []"
      by (auto simp: pool_tick_def rotate_def split: if_splits)
    let ?i = "(current_pool_index ?g + 1) mod length (text_pool ?g)"
    have lt: "?i < length (text_pool ?g)" using ne by simp
    from t True ne lt have st1: "st1 = ?g\<lparr>current_pool_index := ?i, frames_with_current_text := 1\<rparr>"
      and cur: "cur = text_pool ?g ! ?i"
      by (auto simp: pool_tick_def rotate_def current_text_def)
    from g lt cur have "snippet_ok cur" by (simp add: list_all_length)
    with st1 cur lt g show ?thesis by (simp add: pool_inv_def)
  next
    case False
    then have ne: "text_pool st \<noteq> []" by (simp add: needs_new_text_def)
    with inv have lt: "current_pool_index st < length (text_pool st)" by (simp add: pool_inv_def)
    from t False lt have st1: "st1 = st\<lparr>frames_with_current_text := frames_with_current_text st + 1\<rparr>"
      and cur: "cur = text_pool st ! current_pool_index st"
      by (auto simp: pool_tick_def current_text_def)
    from inv lt cur have "snippet_ok cur" by (simp add: pool_inv_def list_all_length)
    with st1 cur lt inv show ?thesis by (simp add: pool_inv_def)
  qed
qed


lemma random_snippet_some:
  assumes "generate_random_text_snippet hl mn mx g = Inr (r, g')"
  shows "\<exists>ls h. r = (Some ls, h) \<and> ls \<noteq> [] \<and> 0 \<le> h \<and> h < int (length ls)"
proof -
  from assms obtain n g1 where r1: "randint (max 1 mn) (max mn mx) g = Inr (n, g1)"
    by (auto simp: generate_random_text_snippet_def split: sum.splits)
  from assms r1 obtain h g2 where r2: "randint 0 (n - 1) g1 = Inr (h, g2)"
    by (auto simp: generate_random_text_snippet_def split: sum.splits)
  obtain built g3 where b: "build_lines hl (nat h) 0 (nat n) g2 = (built, g3)"
    by (cases "build_lines hl (nat h) 0 (nat n) g2")
  obtain fl g4 where f: "finalize_lines built g3 = (fl, g4)"
    by (cases "finalize_lines built g3")
  have "length built = nat n" using build_lines_length[OF b] .
  moreover have "length fl = length built" using finalize_lines_length[OF f] .
  ultimately have len: "length fl = nat n" by simp
  from randint_range[OF r1] have n: "max 1 mn \<le> n" by simp
  from randint_range[OF r2] have h: "0 \<le> h" "h \<le> n - 1" by simp_all
  from n len have ge: "\<not> int (length fl) < mn" and pos: "fl \<noteq> []" by auto
  from assms r1 r2 b f ge have "r = (Some fl, h)"
    by (simp add: generate_random_text_snippet_def)
  with pos h len n show ?thesis by auto
qed

lemma random_request_ok:
  assumes "random_request p w = Inr (r, w1)"
  shows "request_ok r"
proof -
  from assms obtain g where
    "generate_random_text_snippet (p_highlighted_text p) (p_min_lines p) (p_max_lines p)
       (w_rng w) = Inr (r, g)"
    by (auto simp: random_request_def split: sum.splits)
  from random_snippet_some[OF this] show ?thesis by (auto simp: request_ok_def)
qed

lemma text_request_made_ok:
  assumes "text_request p st w = Inr (r, w1)"
    and "needs_new_text module_config st"
    and "length (text_pool st) < pool_size module_config"
  shows "request_ok r"
proof (cases "p_ai_ready p")
  case False
  with assms have "random_request p w = Inr (r, w1)" by (simp add: text_request_def)
  then show ?thesis by (rule random_request_ok)
next
  case True
  obtain ro rest where a: "ai_attempts 3 (p_highlighted_text p) (p_min_lines p) (w_replies w)
                            = (ro, rest)"
    by (cases "ai_attempts 3 (p_highlighted_text p) (p_min_lines p) (w_replies w)")
  show ?thesis
  proof (cases ro)
    case None
    with assms True a have "random_request p (w\<lparr>w_replies := rest\<rparr>) = Inr (r, w1)"
      by (simp add: text_request_def)
    then show ?thesis by (rule random_request_ok)
  next
    case (Some r')
    with assms True a have "r = r'" by (simp add: text_request_def)
    with ai_attempts_valid[OF a[unfolded Some]] show ?thesis by (auto simp: request_ok_def)
  qed
qed

lemma pool_tick_no_index_error:
  assumes "pool_inv st"
  shows "pool_tick cfg st r \<noteq> Inl (Unhandled IndexError)"
proof (cases "needs_new_text cfg st")
  case True
  let ?g = "grow cfg st r"
  show ?thesis
  proof (cases "text_pool ?g = []")
    case True
    with \<open>needs_new_text cfg st\<close> show ?thesis by (simp add: pool_tick_def rotate_def)
  next
    case False
    then have "(current_pool_index ?g + 1) mod length (text_pool ?g) < length (text_pool ?g)"
      by simp
    with False \<open>needs_new_text cfg st\<close> show ?thesis
      by (simp add: pool_tick_def rotate_def current_text_def)
  qed
next
  case False
  then have "text_pool st \<noteq> []" by (simp add: needs_new_text_def)
  with assms have "current_pool_index st < length (text_pool st)" by (simp add: pool_inv_def)
  with False show ?thesis by (simp add: pool_tick_def current_text_def)
qed

lemma pool_tick_succeeds:
  assumes inv: "pool_inv st" and tr: "text_request p st w = Inr (r, w1)"
  shows "\<exists>cur st1. pool_tick module_config st r = Inr (cur, st1)"
proof (cases "needs_new_text module_config st")
  case False
  then have "text_pool st \<noteq> []" by (simp add: needs_new_text_def)
  with inv have "current_pool_index st < length (text_pool st)" by (simp add: pool_inv_def)
  with False show ?thesis by (simp add: pool_tick_def current_text_def)
next
  case need: True
  let ?g = "grow module_config st r"
  have ne: "text_pool ?g \<noteq> []"
  proof (cases "length (text_pool st) < pool_size module_config")
    case True
    from text_request_made_ok[OF tr need True] have "request_ok r" .
    with True show ?thesis by (simp add: grow_def append_if_valid_ok)
  next
    case False
    then have "text_pool st \<noteq> []"
      by (auto simp: module_config_def TEXT_POOL_SIZE_def)
    with False show ?thesis by (simp add: grow_def)
  qed
  then have "(current_pool_index ?g + 1) mod length (text_pool ?g) < length (text_pool ?g)"
    by simp
  with ne need show ?thesis by (simp add: pool_tick_def rotate_def current_text_def)
qed

lemma frame_loop_keeps_invariant:
  "pool_inv st \<Longrightarrow> frame_loop env p n st fs ff w = Inr (fs', st', ff', w') \<Longrightarrow> pool_inv st'"
proof (induction env p n st fs ff w rule: frame_loop.induct)
  case (1 env p n st fs ff w)
  show ?case
  proof (cases "int n < total_frames (p_fps p) (p_duration p)")
    case False
    with "1.prems" show ?thesis by simp
  next
    case True
    from "1.prems"(2) True obtain r w1 where tr: "text_request p st w = Inr (r, w1)"
      by (subst (asm) frame_loop.simps) (auto split: sum.splits)
    from "1.prems"(2) True tr obtain cur st1 where
      pt: "pool_tick module_config st r = Inr (cur, st1)"
      by (subst (asm) frame_loop.simps) (auto split: sum.splits)
    from "1.prems"(2) True tr pt obtain fs1 ff1 w2 where
      rf: "render_frame env p cur n 0 fs ff w1 = Inr (fs1, ff1, w2)"
      by (subst (asm) frame_loop.simps) (auto split: sum.splits)
    from "1.prems"(2) True tr pt rf have
      rec: "frame_loop env p (n + 1) st1 fs1 ff1 w2 = Inr (fs', st', ff', w')"
      by (subst (asm) frame_loop.simps) simp
    have "request_ok r \<Longrightarrow> 0 \<le> snd r \<and> snd r < int (length (the (fst r)))"
      using text_request_index[OF tr] by blast
    from pool_tick_inv[OF "1.prems"(1) this pt] have "pool_inv st1" by simp
    from "1.IH"[OF True tr refl pt refl rf refl refl this rec]
    show ?thesis .
  qed
qed

text \<open>
  Claim C10. The initial loop variables satisfy the invariant. From a state that satisfies
  it the pool logic never raises IndexError, whatever the constants and the request
  result. With the text request of the composed program (the AI attempts with their two
  validations, and the procedural generator) every pass that starts in such a state
  returns: it ends in a state satisfying the invariant, with the cursor inside the pool,
  the current snippet the entry under the cursor and its highlight index an index of its
  lines, so neither \<^verbatim>\<open>text_pool[current_pool_index]\<close> nor
  \<^verbatim>\<open>text_lines[highlight_line_index]\<close> reads out of range.
\<close>

theorem pool_invariant:
  "pool_inv initial_pool \<and>
   (pool_inv st \<longrightarrow> pool_tick cfg st r0 \<noteq> Inl (Unhandled IndexError)) \<and>
   (pool_inv st \<and> text_request p st w = Inr (r, w1) \<longrightarrow>
      (\<exists>cur st1. pool_tick module_config st r = Inr (cur, st1) \<and>
         pool_inv st1 \<and> current_pool_index st1 < length (text_pool st1) \<and>
         cur = text_pool st1 ! current_pool_index st1 \<and>
         0 \<le> highlight_index cur \<and> nat (highlight_index cur) < length (lines cur)))"
proof (intro conjI)
  show "pool_inv initial_pool" by (simp add: pool_inv_def initial_pool_def)
next
  show "pool_inv st \<longrightarrow> pool_tick cfg st r0 \<noteq> Inl (Unhandled IndexError)"
    using pool_tick_no_index_error by blast
next
  show "pool_inv st \<and> text_request p st w = Inr (r, w1) \<longrightarrow>
      (\<exists>cur st1. pool_tick module_config st r = Inr (cur, st1) \<and>
         pool_inv st1 \<and> current_pool_index st1 < length (text_pool st1) \<and>
         cur = text_pool st1 ! current_pool_index st1 \<and>
         0 \<le> highlight_index cur \<and> nat (highlight_index cur) < length (lines cur))"
  proof (rule impI)
    assume a: "pool_inv st \<and> text_request p st w = Inr (r, w1)"
    then have inv: "pool_inv st" and tr: "text_request p st w = Inr (r, w1)" by simp_all
    from pool_tick_succeeds[OF inv tr] obtain cur st1 where
      t: "pool_tick module_config st r = Inr (cur, st1)" by blast
    have rq: "request_ok r \<Longrightarrow> 0 \<le> snd r \<and> snd r < int (length (the (fst r)))"
      using text_request_index[OF tr] by blast
    from pool_tick_inv[OF inv rq t] t
    show "\<exists>cur st1. pool_tick module_config st r = Inr (cur, st1) \<and>
         pool_inv st1 \<and> current_pool_index st1 < length (text_pool st1) \<and>
         cur = text_pool st1 ! current_pool_index st1 \<and>
         0 \<le> highlight_index cur \<and> nat (highlight_index cur) < length (lines cur)"
      by (auto simp: snippet_ok_def)
  qed
qed

(* evaluation *)
theorem pool_invariant_witness:
  "pool_inv initial_pool \<and>
   text_request
     \<lparr>p_fps = 10, p_duration = 5, p_highlighted_text = ''time'', p_min_lines = 2,
      p_max_lines = 2, p_selected_font = ''random'', p_font_dir = ''fonts'',
      p_font_paths = [''a.ttf''], p_ai_ready = False\<rparr>
     initial_pool \<lparr>w_rng = [], w_renders = [], w_replies = []\<rparr>
     = Inr ((Some [''The good time is quickly in the good good good time.'',
                   ''The good time is quickly in the good good good time.''], 0),
            \<lparr>w_rng = [], w_renders = [], w_replies = []\<rparr>) \<and>
   pool_tick module_config initial_pool
       (Some [''The good time is quickly in the good good good time.'',
              ''The good time is quickly in the good good good time.''], 0)
     = Inr (\<lparr>lines = [''The good time is quickly in the good good good time.'',
                       ''The good time is quickly in the good good good time.''],
             highlight_index = 0\<rparr>,
            \<lparr>text_pool = [\<lparr>lines = [''The good time is quickly in the good good good time.'',
                       ''The good time is quickly in the good good good time.''],
             highlight_index = 0\<rparr>], current_pool_index = 0, frames_with_current_text = 1\<rparr>) \<and>
   pool_inv \<lparr>text_pool = [\<lparr>lines = [''The good time is quickly in the good good good time.'',
                       ''The good time is quickly in the good good good time.''],
             highlight_index = 0\<rparr>], current_pool_index = 0, frames_with_current_text = 1\<rparr> \<and>
   pool_tick \<lparr>pool_size = 0, frames_per_snippet = 0\<rparr> initial_pool (None, -1)
     \<noteq> Inl (Unhandled IndexError)"
proof -
  let ?p = "\<lparr>p_fps = 10, p_duration = 5, p_highlighted_text = ''time'', p_min_lines = 2,
      p_max_lines = 2, p_selected_font = ''random'', p_font_dir = ''fonts'',
      p_font_paths = [''a.ttf''], p_ai_ready = False\<rparr>"
  let ?w = "\<lparr>w_rng = [], w_renders = [], w_replies = []\<rparr>"
  let ?ls = "[''The good time is quickly in the good good good time.'',
              ''The good time is quickly in the good good good time.'']"
  let ?cur = "\<lparr>lines = ?ls, highlight_index = 0\<rparr>"
  let ?st1 = "\<lparr>text_pool = [?cur], current_pool_index = 0, frames_with_current_text = 1\<rparr>"
  have a: "text_request ?p initial_pool ?w = Inr ((Some ?ls, 0), ?w)" by code_simp
  have b: "pool_tick module_config initial_pool (Some ?ls, 0) = Inr (?cur, ?st1)" by code_simp
  from pool_invariant[of initial_pool "\<lparr>pool_size = 0, frames_per_snippet = 0\<rparr>" "(None, -1)"
      ?p ?w "(Some ?ls, 0)" ?w]
  have c: "pool_inv initial_pool"
    and d: "pool_tick \<lparr>pool_size = 0, frames_per_snippet = 0\<rparr> initial_pool (None, -1)
              \<noteq> Inl (Unhandled IndexError)"
    and e: "\<exists>cur st1. pool_tick module_config initial_pool (Some ?ls, 0) = Inr (cur, st1) \<and>
              pool_inv st1"
    using a by blast+
  from e b have "pool_inv ?st1" by auto
  with a b c d show ?thesis by simp
qed
(* end of evaluation *)

section \<open>The lines of a snippet\<close>

lemma ai_line_ok_length: "ai_line_ok l \<Longrightarrow> 40 \<le> length l \<and> length l \<le> 100"
  by (simp add: ai_line_ok_def)

lemma final_pass_keeps:
  assumes "MIN_LINE_LENGTH \<le> length line" and "length line \<le> MAX_LINE_LENGTH"
  shows "extend_line (cut_line line) g = (line, g)"
  using assms by (simp add: cut_line_def extend_line_def)

text \<open>
  Claim C5, as amended. A snippet that \<^verbatim>\<open>generate_ai_text_snippet\<close> returns has its
  highlight index inside its lines, the line at that index contains the phrase and is the
  first line that does (later lines may contain it too), and every line has 40 to 100
  characters. In the procedural generator the final pass leaves a line of 50 to 80
  characters as it is.
\<close>

theorem snippet_guarantees:
  "(generate_ai_text_snippet c hl mn reply = (Some ls, h) \<longrightarrow>
      0 \<le> h \<and> nat h < length ls \<and> contains hl (ls ! nat h) \<and>
      (\<forall>j < nat h. \<not> contains hl (ls ! j)) \<and>
      list_all (\<lambda>l. 40 \<le> length l \<and> length l \<le> 100) ls) \<and>
   (50 \<le> length line \<and> length line \<le> 80 \<longrightarrow> extend_line (cut_line line) g = (line, g))"
proof (rule conjI)
  show "generate_ai_text_snippet c hl mn reply = (Some ls, h) \<longrightarrow>
      0 \<le> h \<and> nat h < length ls \<and> contains hl (ls ! nat h) \<and>
      (\<forall>j < nat h. \<not> contains hl (ls ! j)) \<and>
      list_all (\<lambda>l. 40 \<le> length l \<and> length l \<le> 100) ls"
  proof (rule impI)
    assume a: "generate_ai_text_snippet c hl mn reply = (Some ls, h)"
    from ai_snippet_valid[OF a] have h: "0 \<le> h" "h < int (length ls)"
      and ok: "list_all ai_line_ok ls" and fi: "first_index (contains hl) ls = Some (nat h)"
      by simp_all
    from first_index_bound[OF fi] have c: "contains hl (ls ! nat h)" by simp
    from first_index_first[OF fi] have f: "\<forall>j < nat h. \<not> contains hl (ls ! j)" by blast
    from ok have len: "list_all (\<lambda>l. 40 \<le> length l \<and> length l \<le> 100) ls"
      using ai_line_ok_length by (simp add: list_all_iff)
    from h c f len show "0 \<le> h \<and> nat h < length ls \<and> contains hl (ls ! nat h) \<and>
      (\<forall>j < nat h. \<not> contains hl (ls ! j)) \<and>
      list_all (\<lambda>l. 40 \<le> length l \<and> length l \<le> 100) ls"
      by simp
  qed
next
  show "50 \<le> length line \<and> length line \<le> 80 \<longrightarrow> extend_line (cut_line line) g = (line, g)"
    using final_pass_keeps[of line g] by (simp add: MIN_LINE_LENGTH_def MAX_LINE_LENGTH_def)
qed

(* evaluation *)
theorem snippet_guarantees_witness:
  "generate_ai_text_snippet True ''sharp focus'' 2
     (Provider_returns (Some [''The morning light fell across the quiet valley.'', ''A sharp focus keeps the reader on the phrase that matters.'']) 1) = (Some [''The morning light fell across the quiet valley.'', ''A sharp focus keeps the reader on the phrase that matters.''], 1) \<and>
   contains ''sharp focus'' ([''The morning light fell across the quiet valley.'', ''A sharp focus keeps the reader on the phrase that matters.''] ! nat 1) \<and>
   \<not> contains ''sharp focus'' ''The morning light fell across the quiet valley.'' \<and>
   list_all (\<lambda>l. 40 \<le> length l \<and> length l \<le> 100) [''The morning light fell across the quiet valley.'', ''A sharp focus keeps the reader on the phrase that matters.''] \<and>
   50 \<le> length ''A sharp focus keeps the reader on the phrase that matters.'' \<and> length ''A sharp focus keeps the reader on the phrase that matters.'' \<le> 80 \<and>
   extend_line (cut_line ''A sharp focus keeps the reader on the phrase that matters.'') [] = (''A sharp focus keeps the reader on the phrase that matters.'', [])"
proof -
  let ?ls = "[''The morning light fell across the quiet valley.'', ''A sharp focus keeps the reader on the phrase that matters.'']"
  have a: "generate_ai_text_snippet True ''sharp focus'' 2 (Provider_returns (Some ?ls) 1)
             = (Some ?ls, 1)"
    by code_simp
  have b: "50 \<le> length ''A sharp focus keeps the reader on the phrase that matters.'' \<and> length ''A sharp focus keeps the reader on the phrase that matters.'' \<le> 80" by simp
  note t = snippet_guarantees[of True "''sharp focus''" 2 "Provider_returns (Some ?ls) 1" ?ls 1
      "''A sharp focus keeps the reader on the phrase that matters.''" "[]"]
  from t a have c: "contains ''sharp focus'' (?ls ! nat 1)"
    and d: "\<forall>j < nat 1. \<not> contains ''sharp focus'' (?ls ! j)"
    and e: "list_all (\<lambda>l. 40 \<le> length l \<and> length l \<le> 100) ?ls"
    by blast+
  from d have d': "\<not> contains ''sharp focus'' ''The morning light fell across the quiet valley.''" by simp
  from t b have f: "extend_line (cut_line ''A sharp focus keeps the reader on the phrase that matters.'') [] = (''A sharp focus keeps the reader on the phrase that matters.'', [])" by blast
  from a b c d' e f show ?thesis by blast
qed

text \<open>
  Claim C5 says the phrase is in exactly one line. For the highlight "time" with two
  lines and every draw 0, the procedural generator returns two lines that both contain it:
  the other line drew the noun "time" from the word list.
\<close>

theorem phrase_in_two_lines:
  "generate_random_text_snippet ''time'' 2 2 [] =
     Inr ((Some [''The good time is quickly in the good good good time.'', ''The good time is quickly in the good good good time.''], 0), []) \<and>
   length (filter (contains ''time'') [''The good time is quickly in the good good good time.'', ''The good time is quickly in the good good good time.'']) = 2"
  by code_simp

text \<open>
  Two more runs of the procedural generator, outside the band and the placement the claim
  states. The highlight "Gaming" with the part of speech drawn as adjective and the third
  structure, which has no adjective slot, is in no line; and a line of 86 characters with
  a space at position 80 is cut to 81 characters.
\<close>

lemma highlight_word_lost:
  "generate_random_text_snippet ''Gaming'' 2 2 [0, 0, 2, 2] =
     Inr ((Some [''I quickly is that the time is quickly in the time.'', ''The good time is quickly in the good good good time.''], 0), []) \<and>
   filter (contains ''Gaming'')
     [''I quickly is that the time is quickly in the time.'', ''The good time is quickly in the good good good time.''] = []"
  by code_simp

lemma long_line_cut_to_81:
  "generate_random_text_snippet ''time'' 2 2 [0, 1, 1, 20, 38, 0, 30, 18, 13, 18, 0, 27, 21, 0] =
     Inr ((Some [''another important government becomes several different business in the important.'',
                 ''The good time is quickly in the good good good time.''], 1), []) \<and>
   length ''another important government becomes several different business in the important.''
     = 81"
  by code_simp
(* end of evaluation *)

section \<open>The highlight line of a phrase\<close>

lemma startswith_Nil [simp]: "startswith s []"
  by (simp add: startswith_def)

lemma startswith_append_self: "startswith (p @ y) p"
  by (simp add: startswith_def)

lemma contains_Nil: "contains [] s"
  by (cases s) simp_all

lemma contains_prefix: "contains p (p @ y)"
proof (cases "p @ y")
  case Nil
  then show ?thesis by simp
next
  case (Cons c s)
  have "startswith (p @ y) p" by (rule startswith_append_self)
  with Cons show ?thesis by simp
qed

lemma contains_append: "contains p (x @ p @ y)"
proof (induction x)
  case Nil
  show ?case using contains_prefix by simp
next
  case (Cons c x)
  then show ?case by simp
qed

lemma contains_iff: "contains p s \<longleftrightarrow> (\<exists>x y. s = x @ p @ y)"
proof
  assume "contains p s"
  from replace_first_split[OF this, of p] show "\<exists>x y. s = x @ p @ y" by blast
next
  assume "\<exists>x y. s = x @ p @ y"
  then show "contains p s" using contains_append by blast
qed

text \<open>A pattern that starts with a character absent from \<open>u\<close> is not found inside \<open>u\<close>.\<close>

lemma startswith_Cons_neq: "x \<noteq> b \<Longrightarrow> \<not> startswith (x # s) (b # p)"
  by (simp add: startswith_def)

lemma skip_contains:
  "b \<notin> set u \<Longrightarrow> contains (b # p) (u @ s) = contains (b # p) s"
  by (induction u) (auto simp: startswith_Cons_neq)

lemma skip_replace:
  "b \<notin> set u \<Longrightarrow> replace_first (b # p) w (u @ s) = u @ replace_first (b # p) w s"
  by (induction u) (auto simp: startswith_Cons_neq)

lemma placeholder_brace: "\<exists>p. placeholder c = CHR ''{'' # p"
  by (cases c) simp_all

lemma skip_contains_ph:
  "CHR ''{'' \<notin> set u \<Longrightarrow> contains (placeholder c) (u @ s) = contains (placeholder c) s"
  using placeholder_brace[of c] skip_contains by metis

lemma skip_replace_ph:
  "CHR ''{'' \<notin> set u \<Longrightarrow>
     replace_first (placeholder c) w (u @ s) = u @ replace_first (placeholder c) w s"
  using placeholder_brace[of c] skip_replace by metis

lemma placeholder_nonempty: "placeholder c \<noteq> []"
  by (cases c) simp_all

lemma contains_own_ph: "contains (placeholder c) (placeholder c @ s)"
  by (rule contains_prefix)

lemma replace_own_ph: "replace_first (placeholder c) w (placeholder c @ s) = w @ s"
proof -
  obtain b p where ph: "placeholder c = b # p" using placeholder_brace by blast
  have "startswith ((b # p) @ s) (b # p)" by (rule startswith_append_self)
  then show ?thesis unfolding ph by simp
qed

lemma skip_other_contains:
  "c \<noteq> c' \<Longrightarrow> contains (placeholder c) (placeholder c' @ s) = contains (placeholder c) s"
  by (cases c; cases c'; simp add: startswith_def)

lemma skip_other_replace:
  "c \<noteq> c' \<Longrightarrow>
     replace_first (placeholder c) w (placeholder c' @ s)
       = placeholder c' @ replace_first (placeholder c) w s"
  by (cases c; cases c'; simp add: startswith_def)

lemma render_Nil [simp]: "render [] = []"
  by (simp add: render_def)

lemma render_Cons [simp]: "render (t # ts) = token_text t @ render ts"
  by (simp add: render_def)

lemma render_append [simp]: "render (ts @ us) = render ts @ render us"
  by (simp add: render_def)

lemma no_hole_not_contains:
  "list_all lit_ok ts \<Longrightarrow> Hole c \<notin> set ts \<Longrightarrow> \<not> contains (placeholder c) (render ts)"
proof (induction ts)
  case Nil
  then show ?case by (simp add: placeholder_nonempty)
next
  case (Cons t ts)
  then have ih: "\<not> contains (placeholder c) (render ts)" by simp
  show ?case
  proof (cases t)
    case (Lit s)
    with Cons.prems have "CHR ''{'' \<notin> set s" by simp
    with ih Lit show ?thesis by (simp add: skip_contains_ph)
  next
    case (Hole c')
    with Cons.prems have "c \<noteq> c'" by auto
    with ih Hole show ?thesis by (simp add: skip_other_contains)
  qed
qed

lemma first_hole:
  "list_all lit_ok pre \<Longrightarrow> Hole c \<notin> set pre \<Longrightarrow>
     contains (placeholder c) (render (pre @ Hole c # post)) \<and>
     replace_first (placeholder c) w (render (pre @ Hole c # post))
       = render (pre @ Lit w # post)"
proof (induction pre)
  case Nil
  show ?case using contains_own_ph replace_own_ph by simp
next
  case (Cons t pre)
  then have ih: "contains (placeholder c) (render (pre @ Hole c # post)) \<and>
     replace_first (placeholder c) w (render (pre @ Hole c # post))
       = render (pre @ Lit w # post)"
    by simp
  show ?case
  proof (cases t)
    case (Lit s)
    with Cons.prems have "CHR ''{'' \<notin> set s" by simp
    with ih Lit show ?thesis by (simp add: skip_contains_ph skip_replace_ph)
  next
    case (Hole c')
    with Cons.prems have "c \<noteq> c'" by auto
    with ih Hole show ?thesis by (simp add: skip_other_contains skip_other_replace)
  qed
qed

lemma split_first_hole:
  "Hole c \<in> set ts \<Longrightarrow> \<exists>pre post. ts = pre @ Hole c # post \<and> Hole c \<notin> set pre"
  by (rule split_list_first)

declare fill_category.simps [simp del]

lemma fill_category_done:
  "\<not> contains (placeholder c) s \<Longrightarrow> fill_category c None pos s g = (s, None, g)"
  by (subst fill_category.simps) simp

lemma fill_category_step:
  "contains (placeholder c) s \<Longrightarrow> choice (words c) g = (w, g') \<Longrightarrow>
     fill_category c None pos s g
       = fill_category c None pos (replace_first (placeholder c) w s) g'"
  by (subst fill_category.simps) (simp add: truthy_def)

lemma fill_category_tokens:
  "list_all lit_ok ts \<Longrightarrow>
     \<exists>ts' g'. fill_category c None pos (render ts) g = (render ts', None, g') \<and>
              list_all2 (filled_token [c]) ts ts' \<and> list_all lit_ok ts'"
proof (induction "count_list ts (Hole c)" arbitrary: ts g)
  case 0
  then have nh: "Hole c \<notin> set ts" by (simp add: count_list_0_iff)
  have same: "list_all2 (filled_token [c]) ts ts"
  proof (rule list_all2_all_nthI)
    show "length ts = length ts" by simp
  next
    fix n assume "n < length ts"
    then have "ts ! n \<in> set ts" by simp
    with nh have "ts ! n \<noteq> Hole c" by metis
    then show "filled_token [c] (ts ! n) (ts ! n)" by (cases "ts ! n") auto
  qed
  from no_hole_not_contains[OF "0.prems" nh]
  have "fill_category c None pos (render ts) g = (render ts, None, g)"
    by (rule fill_category_done)
  with same "0.prems" show ?case by blast
next
  case (Suc n)
  then have "Hole c \<in> set ts" by (metis count_list_0_iff nat.simps(3))
  from split_first_hole[OF this] obtain pre post where
    ts: "ts = pre @ Hole c # post" and np: "Hole c \<notin> set pre" by blast
  from Suc.prems ts have okpre: "list_all lit_ok pre" and okpost: "list_all lit_ok post"
    by simp_all
  obtain w g1 where ch: "choice (words c) g = (w, g1)" by (cases "choice (words c) g")
  from choice_in_set[OF words_nonempty ch] have win: "w \<in> set (words c)" .
  then have wok: "CHR ''{'' \<notin> set w" by (rule words_brace_free)
  let ?ts1 = "pre @ Lit w # post"
  from first_hole[OF okpre np, of post w]
  have c1: "contains (placeholder c) (render ts)"
    and r1: "replace_first (placeholder c) w (render ts) = render ?ts1"
    unfolding ts by simp_all
  have step: "fill_category c None pos (render ts) g = fill_category c None pos (render ?ts1) g1"
    using fill_category_step[OF c1 ch] r1 by simp
  have ok1: "list_all lit_ok ?ts1" using okpre okpost wok by simp
  have cnt: "n = count_list ?ts1 (Hole c)"
    using Suc.hyps(2) np unfolding ts by (simp add: count_list_0_iff)
  from Suc.hyps(1)[OF cnt ok1, of g1] obtain ts' g' where
    f: "fill_category c None pos (render ?ts1) g1 = (render ts', None, g')"
    and l2: "list_all2 (filled_token [c]) ?ts1 ts'" and ok': "list_all lit_ok ts'"
    by blast
  from l2 obtain pre' t' post' where ts': "ts' = pre' @ t' # post'"
    and lp: "list_all2 (filled_token [c]) pre pre'"
    and lt: "filled_token [c] (Lit w) t'"
    and lq: "list_all2 (filled_token [c]) post post'"
    by (auto simp: list_all2_append1 list_all2_Cons1)
  from lt have t': "t' = Lit w" by simp
  have "filled_token [c] (Hole c) t'" using t' win by simp
  with lp lq have "list_all2 (filled_token [c]) ts ts'"
    unfolding ts ts' by (simp add: list_all2_appendI)
  with step f ok' show ?case by auto
qed

lemma filled_token_compose:
  "filled_token [c] t t1 \<Longrightarrow> filled_token cs t1 t' \<Longrightarrow> filled_token (c # cs) t t'"
  by (cases t) (auto split: if_splits)

lemma filled_token_none: "filled_token [] t t"
  by (cases t) simp_all

lemma fill_categories_tokens:
  "list_all lit_ok ts \<Longrightarrow>
     \<exists>ts' g'. fill_categories cs None pos (render ts) g = (render ts', g') \<and>
              list_all2 (filled_token cs) ts ts' \<and> list_all lit_ok ts'"
proof (induction cs arbitrary: ts g)
  case Nil
  have "list_all2 (filled_token []) ts ts"
    by (rule list_all2_all_nthI) (simp_all add: filled_token_none)
  with Nil show ?case by auto
next
  case (Cons c cs)
  from fill_category_tokens[OF Cons.prems, of c pos g] obtain ts1 g1 where
    f1: "fill_category c None pos (render ts) g = (render ts1, None, g1)"
    and l1: "list_all2 (filled_token [c]) ts ts1" and ok1: "list_all lit_ok ts1"
    by blast
  from Cons.IH[OF ok1, of g1] obtain ts' g' where
    f2: "fill_categories cs None pos (render ts1) g1 = (render ts', g')"
    and l2: "list_all2 (filled_token cs) ts1 ts'" and ok': "list_all lit_ok ts'"
    by blast
  have "list_all2 (filled_token (c # cs)) ts ts'"
    using l1 l2 by (rule list_all2_trans[rotated]) (rule filled_token_compose)
  moreover have "fill_categories (c # cs) None pos (render ts) g = (render ts', g')"
    using f1 f2 by simp
  ultimately show ?case using ok' by blast
qed

lemma word_length_lists:
  "list_all (\<lambda>w. 3 \<le> length w \<and> length w \<le> 10) noun_words"
  "list_all (\<lambda>w. 2 \<le> length w \<and> length w \<le> 7) verb_words"
  "list_all (\<lambda>w. 3 \<le> length w \<and> length w \<le> 9) adj_words"
  "list_all (\<lambda>w. 3 \<le> length w \<and> length w \<le> 10) adv_words"
  "list_all (\<lambda>w. 2 \<le> length w \<and> length w \<le> 10) prep_words"
  "list_all (\<lambda>w. 1 \<le> length w \<and> length w \<le> 10) pronoun_words"
  "list_all (\<lambda>w. 1 \<le> length w \<and> length w \<le> 7) det_words"
  by (simp_all add: noun_words_def verb_words_def adj_words_def adv_words_def
      prep_words_def pronoun_words_def det_words_def)

lemma word_length_bounds:
  "w \<in> set (words c) \<Longrightarrow> cat_min c \<le> length w \<and> length w \<le> cat_max c"
  using word_length_lists by (cases c) (simp_all add: list_all_iff)

lemma all_categories: "c \<in> set categories"
  by (cases c) (simp_all add: categories_def)

lemma filled_token_length:
  assumes "filled_token categories t t'"
  shows "token_min t \<le> length (token_text t') \<and> length (token_text t') \<le> token_max t"
proof (cases t)
  case (Lit s)
  with assms show ?thesis by simp
next
  case (Hole c)
  with assms all_categories[of c] obtain w where "w \<in> set (words c)" "t' = Lit w" by auto
  with word_length_bounds[of w c] Hole show ?thesis by simp
qed

lemma filled_length:
  "list_all2 (filled_token categories) ts ts' \<Longrightarrow>
     sum_list (map token_min ts) \<le> length (render ts') \<and>
     length (render ts') \<le> sum_list (map token_max ts)"
proof (induction rule: list_all2_induct)
  case Nil
  show ?case by simp
next
  case (Cons t ts t' ts')
  from filled_token_length[OF Cons.hyps(1)] Cons.IH show ?case by simp
qed

lemma template_filled:
  assumes ok: "list_all lit_ok ts"
    and ts: "ts = pre @ Lit K # mid @ [Lit ''.'']"
    and mx: "sum_list (map token_max pre) \<le> 40"
    and mn: "43 \<le> sum_list (map token_min ts)"
  shows "\<exists>s g'. fill_categories categories None None (render ts) g = (s, g') \<and>
           placed K s \<and> 43 \<le> length s"
proof -
  from fill_categories_tokens[OF ok, of categories None g] obtain ts' g' where
    f: "fill_categories categories None None (render ts) g = (render ts', g')"
    and l: "list_all2 (filled_token categories) ts ts'"
    by blast
  from l[unfolded ts] obtain pre' t' rest' where
    ts': "ts' = pre' @ t' # rest'" and lp: "list_all2 (filled_token categories) pre pre'"
    and lt: "filled_token categories (Lit K) t'"
    and lr: "list_all2 (filled_token categories) (mid @ [Lit ''.'']) rest'"
    by (auto simp: list_all2_append1 list_all2_Cons1)
  from lr obtain mid' d' where rest': "rest' = mid' @ [d']"
    and ld: "filled_token categories (Lit ''.'') d'"
    by (auto simp: list_all2_append1 list_all2_Cons1)
  from lt ld have t': "t' = Lit K" and d': "d' = Lit ''.''" by simp_all
  have r: "render ts' = render pre' @ K @ (render mid' @ ''.'')"
    unfolding ts' rest' t' d' by simp
  from filled_length[OF lp] mx have la: "length (render pre') \<le> 40" by simp
  from filled_length[OF l] mn have ls: "43 \<le> length (render ts')" by simp
  have "placed K (render ts')"
    unfolding placed_def using r la by (intro exI[of _ "render pre'"] exI[of _ "render mid' @ ''.''"]) simp
  with f ls show ?thesis by blast
qed

lemma endswith_append: "endswith (z @ p) p"
  by (simp add: endswith_def)

lemma common_end:
  assumes "x @ us = u @ P"
  shows "endswith us P \<or> endswith P us"
proof -
  from assms[unfolded append_eq_append_conv2] obtain zs where
    "(x = u @ zs \<and> zs @ us = P) \<or> (x @ zs = u \<and> us = zs @ P)" by blast
  then show ?thesis
  proof
    assume "x = u @ zs \<and> zs @ us = P"
    then have "P = zs @ us" by simp
    then show ?thesis using endswith_append[of zs us] by simp
  next
    assume "x @ zs = u \<and> us = zs @ P"
    then show ?thesis using endswith_append[of zs P] by simp
  qed
qed

lemma insertion_keeps:
  assumes nc: "\<not> clash P K" and s: "s = a @ K @ b" and c: "contains P s"
    and P: "P \<noteq> []" "last P \<noteq> CHR ''.''"
    and b: "b \<noteq> []" "last b = CHR ''.''"
  shows "\<exists>a' b'. replace_first P (P @ X) s = a' @ K @ b' \<and>
           length a' \<le> length a + length X \<and> b' \<noteq> [] \<and> last b' = CHR ''.''"
proof -
  from replace_first_split[OF c, of "P @ X"] obtain u v where
    uv: "s = u @ P @ v" and res: "replace_first P (P @ X) s = u @ (P @ X) @ v" by blast
  have vne: "v \<noteq> []"
  proof
    assume "v = []"
    with uv P(1) have "last s = last P" by simp
    moreover from s b(1) have "last s = last b" by simp
    ultimately show False using P(2) b(2) by simp
  qed
  from uv s have "a @ (K @ b) = (u @ P) @ v" by simp
  then have "\<exists>us. (a = (u @ P) @ us \<and> us @ (K @ b) = v) \<or> (a @ us = u @ P \<and> K @ b = us @ v)"
    by (simp only: append_eq_append_conv2)
  then obtain us where
    cases1: "(a = (u @ P) @ us \<and> us @ (K @ b) = v) \<or> (a @ us = u @ P \<and> K @ b = us @ v)"
    by blast
  then show ?thesis
  proof
    assume A: "a = (u @ P) @ us \<and> us @ (K @ b) = v"
    then have "replace_first P (P @ X) s = (u @ P @ X @ us) @ K @ b"
      using res by simp
    moreover have "length (u @ P @ X @ us) \<le> length a + length X" using A by simp
    ultimately show ?thesis using b by blast
  next
    assume B: "a @ us = u @ P \<and> K @ b = us @ v"
    then have "K @ b = us @ v" by simp
    then have "\<exists>ws. (K = us @ ws \<and> ws @ b = v) \<or> (K @ ws = us \<and> b = ws @ v)"
      by (simp only: append_eq_append_conv2)
    then obtain ws where
      cases2: "(K = us @ ws \<and> ws @ b = v) \<or> (K @ ws = us \<and> b = ws @ v)"
      by blast
    then show ?thesis
    proof
      assume B2: "K @ ws = us \<and> b = ws @ v"
      with B have "u @ P = a @ K @ ws" by simp
      then have "replace_first P (P @ X) s = a @ K @ (ws @ X @ v)"
        using res by simp
      moreover have "last (ws @ X @ v) = CHR ''.''" using vne b(2) B2 by simp
      ultimately show ?thesis using vne by (intro exI[of _ a] exI[of _ "ws @ X @ v"]) simp
    next
      assume B1: "K = us @ ws \<and> ws @ b = v"
      show ?thesis
      proof (cases "us = []")
        case True
        with B B1 have "a = u @ P" "v = K @ b" by simp_all
        then have "replace_first P (P @ X) s = (a @ X) @ K @ b" using res by simp
        then show ?thesis using b by (intro exI[of _ "a @ X"] exI[of _ b]) simp
      next
        case usne: False
        show ?thesis
        proof (cases "ws = []")
          case True
          with B B1 have "u @ P = a @ K" "v = b" by simp_all
          then have "replace_first P (P @ X) s = a @ K @ (X @ b)" using res by simp
          then show ?thesis using b by (intro exI[of _ a] exI[of _ "X @ b"]) simp
        next
          case wsne: False
          let ?m = "length us"
          from B1 usne wsne have m: "1 \<le> ?m" "?m < length K" and tk: "take ?m K = us"
            by (simp_all add: Suc_le_eq)
          from B common_end[of a us u P] have "endswith us P \<or> endswith P us" by simp
          with tk have "endswith P (take ?m K) \<or> endswith (take ?m K) P" by auto
          with m have "clash P K"
            unfolding clash_def list_ex_iff by (intro bexI[of _ ?m]) simp_all
          with nc show ?thesis by simp
        qed
      qed
    qed
  qed
qed

lemma adj_length: "w \<in> set adj_words \<Longrightarrow> length w \<le> 9"
  using word_length_bounds[of w Adj] by simp

lemma suffix_lengths: "list_all (\<lambda>w. 6 \<le> length w) suffixes"
  by (simp add: suffixes_def)

lemma adj_nonempty: "adj_words \<noteq> []"
  using words_nonempty[of Adj] by simp

lemma suffixes_nonempty: "suffixes \<noteq> []"
  by (simp add: suffixes_def)

lemma placed_endswith:
  assumes "placed K s"
  shows "endswith s ''.''"
proof -
  from assms obtain a b where s: "s = a @ K @ b" and b: "b \<noteq> []" "last b = CHR ''.''"
    unfolding placed_def by blast
  from b have "b = butlast b @ ''.''" by (metis append_butlast_last_id)
  with s have "s = (a @ K @ butlast b) @ ''.''" by simp
  then show ?thesis using endswith_append by metis
qed

declare lengthen.simps [simp del]

lemma lengthen_placed:
  assumes nc1: "\<not> clash '' the '' K" and nc2: "\<not> clash '' a '' K" and K: "25 \<le> length K"
  shows "placed K s \<Longrightarrow> 43 \<le> length s \<Longrightarrow>
           \<exists>s' g'. lengthen s g = (s', g') \<and> placed K s' \<and> 50 \<le> length s'"
proof (induction s g rule: lengthen.induct)
  case (1 result g)
  from "1.prems"(1) obtain a b where s: "result = a @ K @ b" and la: "length a \<le> 40"
    and b: "b \<noteq> []" "last b = CHR ''.''"
    unfolding placed_def by blast
  show ?case
  proof (cases "length result < 50")
    case False
    then have "lengthen result g = (result, g)" by (subst lengthen.simps) simp
    with "1.prems" False show ?thesis by simp
  next
    case short: True
    from short s K b have la': "length a + 10 \<le> 40" by (cases b) simp_all
    have step: "\<And>P adj g1. contains P result \<Longrightarrow> \<not> clash P K \<Longrightarrow> P \<noteq> [] \<Longrightarrow>
        last P \<noteq> CHR ''.'' \<Longrightarrow> adj \<in> set adj_words \<Longrightarrow>
        placed K (replace_first P (P @ adj @ '' '') result) \<and>
        43 \<le> length (replace_first P (P @ adj @ '' '') result)"
    proof -
      fix P adj g1
      assume c: "contains P result" and nc: "\<not> clash P K" and P: "P \<noteq> []" "last P \<noteq> CHR ''.''"
        and adj: "adj \<in> set adj_words"
      from insertion_keeps[OF nc s c P b, of "adj @ '' ''"] obtain a' b' where
        r: "replace_first P (P @ adj @ '' '') result = a' @ K @ b'"
        and la2: "length a' \<le> length a + length (adj @ '' '')"
        and b': "b' \<noteq> []" "last b' = CHR ''.''"
        by blast
      from la2 adj_length[OF adj] la' have "length a' \<le> 40" by simp
      with r b' have pl: "placed K (replace_first P (P @ adj @ '' '') result)"
        unfolding placed_def by blast
      from length_replace_first[OF c, of "P @ adj @ '' ''"] "1.prems"(2)
      have "43 \<le> length (replace_first P (P @ adj @ '' '') result)" by simp
      with pl show "placed K (replace_first P (P @ adj @ '' '') result) \<and>
        43 \<le> length (replace_first P (P @ adj @ '' '') result)" by simp
    qed
    show ?thesis
    proof (cases "contains '' the '' result")
      case the: True
      obtain adj g1 where ch: "choice adj_words g = (adj, g1)" by (cases "choice adj_words g")
      from choice_in_set[OF adj_nonempty ch] have adj: "adj \<in> set adj_words" .
      let ?r = "replace_first '' the '' ('' the '' @ adj @ '' '') result"
      from step[OF the nc1 _ _ adj] have pl: "placed K ?r" and ln: "43 \<le> length ?r" by simp_all
      from "1.IH"(1)[OF short the ch[symmetric] pl ln] obtain s' g' where
        "lengthen ?r g1 = (s', g')" "placed K s'" "50 \<le> length s'" by blast
      moreover have "lengthen result g = lengthen ?r g1"
        using short the ch by (subst lengthen.simps) simp
      ultimately show ?thesis by simp
    next
      case nthe: False
      show ?thesis
      proof (cases "contains '' a '' result")
        case an: True
        obtain adj g1 where ch: "choice adj_words g = (adj, g1)" by (cases "choice adj_words g")
        from choice_in_set[OF adj_nonempty ch] have adj: "adj \<in> set adj_words" .
        let ?r = "replace_first '' a '' ('' a '' @ adj @ '' '') result"
        from step[OF an nc2 _ _ adj] have pl: "placed K ?r" and ln: "43 \<le> length ?r" by simp_all
        from "1.IH"(2)[OF short nthe an ch[symmetric] pl ln] obtain s' g' where
          "lengthen ?r g1 = (s', g')" "placed K s'" "50 \<le> length s'" by blast
        moreover have "lengthen result g = lengthen ?r g1"
          using short nthe an ch by (subst lengthen.simps) simp
        ultimately show ?thesis by simp
      next
        case nan: False
        obtain sfx g1 where ch: "choice suffixes g = (sfx, g1)" by (cases "choice suffixes g")
        from choice_in_set[OF suffixes_nonempty ch] suffix_lengths
        have sl: "6 \<le> length sfx" by (simp add: list_all_iff)
        let ?r = "butlast result @ '' '' @ sfx @ ''.''"
        have e: "endswith result ''.''" using "1.prems"(1) by (rule placed_endswith)
        have res: "lengthen result g = (?r, g1)"
          using short nthe nan e ch by (subst lengthen.simps) simp
        from s b have bl: "butlast result = a @ K @ butlast b" by (simp add: butlast_append)
        have "placed K ?r"
          unfolding placed_def bl
          using la by (intro exI[of _ a] exI[of _ "butlast b @ '' '' @ sfx @ ''.''"]) simp
        moreover have "50 \<le> length ?r" using "1.prems"(2) sl by simp
        ultimately show ?thesis using res by simp
      qed
    qed
  qed
qed

lemma find_cut_le: "find_cut line c \<le> c"
  by (induction c) auto

lemma find_cut_ge: "j \<le> c \<Longrightarrow> line ! j = CHR '' '' \<Longrightarrow> j \<le> find_cut line c"
proof (induction c)
  case 0
  then show ?case by simp
next
  case (Suc c)
  show ?case
  proof (cases "line ! Suc c = CHR '' ''")
    case True
    with Suc.prems show ?thesis by simp
  next
    case False
    with Suc.prems have "j \<noteq> Suc c" by auto
    with Suc.prems have "j \<le> c" by simp
    from Suc.IH[OF this Suc.prems(2)] False show ?thesis by simp
  qed
qed

lemma extend_line_long: "MIN_LINE_LENGTH \<le> length l \<Longrightarrow> extend_line l g = (l, g)"
  by (simp add: extend_line_def)

lemma final_pass_keeps_phrase:
  assumes pl: "placed (hl @ sep @ '' '') s" and len: "50 \<le> length s"
    and K: "length (hl @ sep) \<le> 25"
  shows "extend_line (cut_line s) g = (cut_line s, g) \<and> contains hl (cut_line s)"
proof -
  from pl obtain a b where s: "s = a @ (hl @ sep @ '' '') @ b" and la: "length a \<le> 40"
    unfolding placed_def by blast
  let ?p = "length a + length (hl @ sep)"
  have sp: "s ! ?p = CHR '' ''" unfolding s by (simp add: nth_append)
  have p80: "?p \<le> 80" using la K by simp
  have c0: "contains hl s" unfolding s using contains_append[of hl a "sep @ '' '' @ b"] by simp
  show ?thesis
  proof (cases "length s > MAX_LINE_LENGTH \<and> find_cut s MAX_LINE_LENGTH > MIN_LINE_LENGTH")
    case False
    then have "cut_line s = s" by (auto simp: cut_line_def Let_def)
    with c0 len extend_line_long[of s g] show ?thesis by (simp add: MIN_LINE_LENGTH_def)
  next
    case True
    let ?c = "find_cut s MAX_LINE_LENGTH"
    from True have cl: "cut_line s = take ?c s @ ''.''" by (simp add: cut_line_def Let_def)
    from find_cut_ge[OF _ sp, of MAX_LINE_LENGTH] p80 have ge: "?p \<le> ?c"
      by (simp add: MAX_LINE_LENGTH_def)
    have le: "?c \<le> length s" using find_cut_le[of s MAX_LINE_LENGTH] True by simp
    from ge have "take ?c s = a @ hl @ take (?c - length a - length hl) (sep @ '' '' @ b)"
      unfolding s by simp
    then have "contains hl (take ?c s @ ''.'')"
      using contains_append[of hl a "take (?c - length a - length hl) (sep @ '' '' @ b) @ ''.''"]
      by simp
    moreover have "MIN_LINE_LENGTH \<le> length (take ?c s @ ''.'')"
      using True le by simp
    then have "extend_line (take ?c s @ ''.'') g = (take ?c s @ ''.'', g)"
      by (rule extend_line_long)
    ultimately show ?thesis unfolding cl by simp
  qed
qed

lemma build_lines_nth:
  "build_lines hl h i n g = (ls, g') \<Longrightarrow> i \<le> h \<Longrightarrow> h < i + n \<Longrightarrow>
     \<exists>g1. ls ! (h - i) = fst (highlight_line hl g1)"
proof (induction n arbitrary: i g ls g')
  case 0
  then show ?case by simp
next
  case (Suc n)
  obtain s g1 where first: "(if i = h then highlight_line hl g else normal_line g) = (s, g1)"
    by (cases "if i = h then highlight_line hl g else normal_line g")
  obtain rest g2 where r: "build_lines hl h (Suc i) n g1 = (rest, g2)"
    by (cases "build_lines hl h (Suc i) n g1")
  from Suc.prems(1) first r have ls: "ls = s # rest" by simp
  show ?case
  proof (cases "i = h")
    case True
    with first have "s = fst (highlight_line hl g)" by simp
    with ls True show ?thesis by auto
  next
    case False
    with Suc.prems have "Suc i \<le> h" "h < Suc i + n" by simp_all
    from Suc.IH[OF r this] obtain g3 where "rest ! (h - Suc i) = fst (highlight_line hl g3)"
      by blast
    moreover from False Suc.prems(2) have "h - i = Suc (h - Suc i)" by simp
    ultimately show ?thesis using ls by auto
  qed
qed

lemma finalize_lines_nth:
  "finalize_lines ls g = (fl, g') \<Longrightarrow> k < length ls \<Longrightarrow>
     \<exists>g1. fl ! k = fst (extend_line (cut_line (ls ! k)) g1)"
proof (induction ls arbitrary: g fl g' k)
  case Nil
  then show ?case by simp
next
  case (Cons l ls)
  obtain l' g1 where e: "extend_line (cut_line l) g = (l', g1)"
    by (cases "extend_line (cut_line l) g")
  obtain rest g2 where r: "finalize_lines ls g1 = (rest, g2)"
    by (cases "finalize_lines ls g1")
  from Cons.prems(1) e r have fl: "fl = l' # rest" by simp
  show ?case
  proof (cases k)
    case 0
    with fl e show ?thesis by (auto intro: exI[of _ g])
  next
    case (Suc j)
    with Cons.prems(2) have "j < length ls" by simp
    from Cons.IH[OF r this] fl Suc show ?thesis by simp
  qed
qed

lemma phrase_structures_tokens: "phrase_structures hl = map render (phrase_tokens hl)"
  by (simp add: phrase_structures_def phrase_tokens_def)

lemma randint_ok:
  "a \<le> b \<Longrightarrow> \<exists>x g'. randint a b g = Inr (x, g') \<and> a \<le> x \<and> x \<le> b"
proof -
  assume ab: "a \<le> b"
  obtain r g1 where d: "draw g = (r, g1)" by (cases "draw g")
  with ab have "randint a b g = Inr (a + int (r mod nat (b - a + 1)), g1)"
    by (simp add: randint_def)
  from this randint_range[OF this] show ?thesis by blast
qed

lemma no_clash:
  "\<not> clash '' the '' (''Better Gaming Experience'' @ '' '')"
  "\<not> clash '' a '' (''Better Gaming Experience'' @ '' '')"
  "\<not> clash '' the '' (''Better Gaming Experience'' @ '', '')"
  "\<not> clash '' a '' (''Better Gaming Experience'' @ '', '')"
  by code_simp+

lemma scenario_is_phrase: "is_phrase ''Better Gaming Experience''"
  by code_simp

lemma template_sentence:
  assumes "list_all lit_ok ts" and "ts = pre @ Lit K # mid @ [Lit ''.'']"
    and "sum_list (map token_max pre) \<le> 40" and "43 \<le> sum_list (map token_min ts)"
    and "\<not> clash '' the '' K" and "\<not> clash '' a '' K" and "25 \<le> length K"
  shows "\<exists>s g'. fill_sentence_structure (render ts) None None g = (s, g') \<and>
           placed K s \<and> 50 \<le> length s"
proof -
  from template_filled[OF assms(1-4), of g] obtain s0 g0 where
    f: "fill_categories categories None None (render ts) g = (s0, g0)"
    and p0: "placed K s0" and l0: "43 \<le> length s0"
    by blast
  from lengthen_placed[OF assms(5-7) p0 l0, of g0] obtain s g' where
    "lengthen s0 g0 = (s, g')" "placed K s" "50 \<le> length s" by blast
  with f show ?thesis by (simp add: fill_sentence_structure_def)
qed

lemma no_clash_lit:
  "\<not> clash '' the '' ''Better Gaming Experience ''"
  "\<not> clash '' a '' ''Better Gaming Experience ''"
  "\<not> clash '' the '' ''Better Gaming Experience, ''"
  "\<not> clash '' a '' ''Better Gaming Experience, ''"
  using no_clash by simp_all

lemma phrase_tokens_cases:
  assumes "ts \<in> set (phrase_tokens hl)"
  shows "ts = phrase_tokens hl ! 0 \<or> ts = phrase_tokens hl ! 1 \<or> ts = phrase_tokens hl ! 2 \<or>
         ts = phrase_tokens hl ! 3 \<or> ts = phrase_tokens hl ! 4"
proof -
  have "length (phrase_tokens hl) = 5" by (simp add: phrase_tokens_def)
  with assms obtain i where "i < 5" "ts = phrase_tokens hl ! i"
    by (metis in_set_conv_nth)
  then show ?thesis by (auto simp: less_Suc_eq numeral_eq_Suc)
qed

lemma sentence_1:
  "\<exists>s g'. fill_sentence_structure (render (phrase_tokens ''Better Gaming Experience'' ! 0))
             None None g = (s, g') \<and>
          placed ''Better Gaming Experience '' s \<and> 50 \<le> length s"
proof -
  let ?pre = "[Lit ''The '', Hole Adj, Lit '' '', Hole Noun, Lit '' '']"
  let ?mid = "[Hole Prep, Lit '' '', Hole Det, Lit '' '', Hole Adj, Lit '' '', Hole Noun]"
  let ?K = "''Better Gaming Experience ''"
  let ?ts = "phrase_tokens ''Better Gaming Experience'' ! 0"
  have a: "?ts = ?pre @ Lit ?K # ?mid @ [Lit ''.'']" by (simp add: phrase_tokens_def)
  have b: "list_all lit_ok (?pre @ Lit ?K # ?mid @ [Lit ''.''])" by simp
  have c: "sum_list (map token_max ?pre) \<le> 40" by simp
  have d: "43 \<le> sum_list (map token_min (?pre @ Lit ?K # ?mid @ [Lit ''.'']))" by simp
  have e: "25 \<le> length ?K" by simp
  show ?thesis
    unfolding a
    by (rule template_sentence[OF b refl c d no_clash_lit(1) no_clash_lit(2) e])
qed

lemma sentence_2:
  "\<exists>s g'. fill_sentence_structure (render (phrase_tokens ''Better Gaming Experience'' ! 1))
             None None g = (s, g') \<and>
          placed ''Better Gaming Experience '' s \<and> 50 \<le> length s"
proof -
  let ?pre = "[Hole Det, Lit '' '', Hole Adj, Lit '' '', Hole Noun, Lit '' '', Hole Adv, Lit '' '']"
  let ?mid = "[Hole Prep, Lit '' '', Hole Det, Lit '' '', Hole Noun]"
  let ?K = "''Better Gaming Experience ''"
  let ?ts = "phrase_tokens ''Better Gaming Experience'' ! 1"
  have a: "?ts = ?pre @ Lit ?K # ?mid @ [Lit ''.'']" by (simp add: phrase_tokens_def)
  have b: "list_all lit_ok (?pre @ Lit ?K # ?mid @ [Lit ''.''])" by simp
  have c: "sum_list (map token_max ?pre) \<le> 40" by simp
  have d: "43 \<le> sum_list (map token_min (?pre @ Lit ?K # ?mid @ [Lit ''.'']))" by simp
  have e: "25 \<le> length ?K" by simp
  show ?thesis
    unfolding a
    by (rule template_sentence[OF b refl c d no_clash_lit(1) no_clash_lit(2) e])
qed

lemma sentence_3:
  "\<exists>s g'. fill_sentence_structure (render (phrase_tokens ''Better Gaming Experience'' ! 2))
             None None g = (s, g') \<and>
          placed ''Better Gaming Experience, '' s \<and> 50 \<le> length s"
proof -
  let ?pre = "[Lit ''When '']"
  let ?mid = "[Hole Det, Lit '' '', Hole Adj, Lit '' '', Hole Noun, Lit '' '', Hole Verb,
     Lit '' '', Hole Adv, Lit '' '', Hole Prep, Lit '' '', Hole Det, Lit '' '', Hole Noun]"
  let ?K = "''Better Gaming Experience, ''"
  let ?ts = "phrase_tokens ''Better Gaming Experience'' ! 2"
  have a: "?ts = ?pre @ Lit ?K # ?mid @ [Lit ''.'']" by (simp add: phrase_tokens_def)
  have b: "list_all lit_ok (?pre @ Lit ?K # ?mid @ [Lit ''.''])" by simp
  have c: "sum_list (map token_max ?pre) \<le> 40" by simp
  have d: "43 \<le> sum_list (map token_min (?pre @ Lit ?K # ?mid @ [Lit ''.'']))" by simp
  have e: "25 \<le> length ?K" by simp
  show ?thesis
    unfolding a
    by (rule template_sentence[OF b refl c d no_clash_lit(3) no_clash_lit(4) e])
qed

lemma sentence_4:
  "\<exists>s g'. fill_sentence_structure (render (phrase_tokens ''Better Gaming Experience'' ! 3))
             None None g = (s, g') \<and>
          placed ''Better Gaming Experience '' s \<and> 50 \<le> length s"
proof -
  let ?pre = "[Hole Pronoun, Lit '' '', Hole Verb, Lit '' that '']"
  let ?mid = "[Hole Verb, Lit '' '', Hole Adv, Lit '' '', Hole Prep, Lit '' '', Hole Det,
     Lit '' '', Hole Adj, Lit '' '', Hole Noun]"
  let ?K = "''Better Gaming Experience ''"
  let ?ts = "phrase_tokens ''Better Gaming Experience'' ! 3"
  have a: "?ts = ?pre @ Lit ?K # ?mid @ [Lit ''.'']" by (simp add: phrase_tokens_def)
  have b: "list_all lit_ok (?pre @ Lit ?K # ?mid @ [Lit ''.''])" by simp
  have c: "sum_list (map token_max ?pre) \<le> 40" by simp
  have d: "43 \<le> sum_list (map token_min (?pre @ Lit ?K # ?mid @ [Lit ''.'']))" by simp
  have e: "25 \<le> length ?K" by simp
  show ?thesis
    unfolding a
    by (rule template_sentence[OF b refl c d no_clash_lit(1) no_clash_lit(2) e])
qed

lemma sentence_5:
  "\<exists>s g'. fill_sentence_structure (render (phrase_tokens ''Better Gaming Experience'' ! 4))
             None None g = (s, g') \<and>
          placed ''Better Gaming Experience, '' s \<and> 50 \<le> length s"
proof -
  let ?pre = "[Lit ''Because of '']"
  let ?mid = "[Hole Det, Lit '' '', Hole Adj, Lit '' '', Hole Noun, Lit '' '', Hole Verb,
     Lit '' '', Hole Adv, Lit '' '', Hole Prep, Lit '' '', Hole Det, Lit '' '', Hole Noun]"
  let ?K = "''Better Gaming Experience, ''"
  let ?ts = "phrase_tokens ''Better Gaming Experience'' ! 4"
  have a: "?ts = ?pre @ Lit ?K # ?mid @ [Lit ''.'']" by (simp add: phrase_tokens_def)
  have b: "list_all lit_ok (?pre @ Lit ?K # ?mid @ [Lit ''.''])" by simp
  have c: "sum_list (map token_max ?pre) \<le> 40" by simp
  have d: "43 \<le> sum_list (map token_min (?pre @ Lit ?K # ?mid @ [Lit ''.'']))" by simp
  have e: "25 \<le> length ?K" by simp
  show ?thesis
    unfolding a
    by (rule template_sentence[OF b refl c d no_clash_lit(3) no_clash_lit(4) e])
qed

lemma placed_space:
  "placed ''Better Gaming Experience '' s \<Longrightarrow> placed (''Better Gaming Experience'' @ [] @ '' '') s"
  "placed ''Better Gaming Experience, '' s \<Longrightarrow> placed (''Better Gaming Experience'' @ '','' @ '' '') s"
  by simp_all

lemma phrase_line_good:
  "\<exists>s g'. highlight_line ''Better Gaming Experience'' g = (s, g') \<and> 50 \<le> length s \<and>
     (placed ''Better Gaming Experience '' s \<or> placed ''Better Gaming Experience, '' s)"
proof -
  let ?hl = "''Better Gaming Experience''"
  obtain st g1 where ch: "choice (phrase_structures ?hl) g = (st, g1)"
    by (cases "choice (phrase_structures ?hl) g")
  have ne: "phrase_structures ?hl \<noteq> []" by (simp add: phrase_structures_def)
  from choice_in_set[OF ne ch] have "st \<in> set (phrase_structures ?hl)" .
  then obtain ts where ts: "ts \<in> set (phrase_tokens ?hl)" and st: "st = render ts"
    unfolding phrase_structures_tokens by auto
  have "\<exists>s g2. fill_sentence_structure (render ts) None None g1 = (s, g2) \<and> 50 \<le> length s \<and>
          (placed ''Better Gaming Experience '' s \<or> placed ''Better Gaming Experience, '' s)"
    using phrase_tokens_cases[OF ts]
  proof (elim disjE)
    assume e: "ts = phrase_tokens ?hl ! 0"
    show ?thesis unfolding e using sentence_1[of g1] by blast
  next
    assume e: "ts = phrase_tokens ?hl ! 1"
    show ?thesis unfolding e using sentence_2[of g1] by blast
  next
    assume e: "ts = phrase_tokens ?hl ! 2"
    show ?thesis unfolding e using sentence_3[of g1] by blast
  next
    assume e: "ts = phrase_tokens ?hl ! 3"
    show ?thesis unfolding e using sentence_4[of g1] by blast
  next
    assume e: "ts = phrase_tokens ?hl ! 4"
    show ?thesis unfolding e using sentence_5[of g1] by blast
  qed
  then obtain s g2 where f: "fill_sentence_structure (render ts) None None g1 = (s, g2)"
    and l: "50 \<le> length s"
    and p: "placed ''Better Gaming Experience '' s \<or> placed ''Better Gaming Experience, '' s"
    by blast
  have first: "first_highlight_sentence ?hl g = (s, None, g2)"
    using scenario_is_phrase ch f st by (simp add: first_highlight_sentence_def)
  have "retry_highlight ?hl None s 0 g2 = (s, g2)"
    using l by (subst retry_highlight.simps) (simp add: MIN_LINE_LENGTH_def)
  with first have "highlight_line ?hl g = (s, g2)" by (simp add: highlight_line_def)
  with l p show ?thesis by blast
qed

text \<open>
  Claim C6. For every state of the random generator, the procedural generator called with
  the highlight \<^verbatim>\<open>"Better Gaming Experience"\<close>, \<^verbatim>\<open>min_lines = 7\<close> and
  \<^verbatim>\<open>max_lines = 12\<close> returns a snippet (it neither raises nor returns
  \<^verbatim>\<open>(None, -1)\<close>) of 7 to 12 lines, with a highlight index inside the lines, and
  the line at that index contains the phrase. Each of the five structures of a phrase gives
  a sentence of at least 50 characters in which the phrase starts within the first 40
  characters and is followed by a space, so the retries are not needed, the words added
  to lengthen the sentence are not put inside the phrase, and a cut at column 80 falls
  after it.
\<close>

theorem scenario_B_snippet:
  "\<exists>ls h g'. generate_random_text_snippet ''Better Gaming Experience'' 7 12 g
                = Inr ((Some ls, h), g') \<and>
     7 \<le> length ls \<and> length ls \<le> 12 \<and> 0 \<le> h \<and> nat h < length ls \<and>
     contains ''Better Gaming Experience'' (ls ! nat h)"
proof -
  let ?hl = "''Better Gaming Experience''"
  from randint_ok[of 7 12 g] obtain n g1 where
    r1: "randint 7 12 g = Inr (n, g1)" and n: "7 \<le> n" "n \<le> 12" by auto
  from n randint_ok[of 0 "n - 1" g1] obtain h g2 where
    r2: "randint 0 (n - 1) g1 = Inr (h, g2)" and h: "0 \<le> h" "h \<le> n - 1" by auto
  obtain built g3 where b: "build_lines ?hl (nat h) 0 (nat n) g2 = (built, g3)"
    by (cases "build_lines ?hl (nat h) 0 (nat n) g2")
  obtain fl g4 where f: "finalize_lines built g3 = (fl, g4)"
    by (cases "finalize_lines built g3")
  have lb: "length built = nat n" using build_lines_length[OF b] .
  have lf: "length fl = nat n" using finalize_lines_length[OF f] lb by simp
  from h n have hn: "nat h < nat n" by simp
  from build_lines_nth[OF b, of ] hn obtain gx where
    bh: "built ! (nat h - 0) = fst (highlight_line ?hl gx)" by auto
  from phrase_line_good[of gx] obtain s gx' where
    hlx: "highlight_line ?hl gx = (s, gx')" and ls: "50 \<le> length s"
    and pl: "placed ''Better Gaming Experience '' s \<or> placed ''Better Gaming Experience, '' s"
    by blast
  from bh hlx have bs: "built ! nat h = s" by simp
  from finalize_lines_nth[OF f, of "nat h"] hn lb obtain gy where
    fh: "fl ! nat h = fst (extend_line (cut_line (built ! nat h)) gy)" by auto
  have keep: "extend_line (cut_line s) gy = (cut_line s, gy) \<and> contains ?hl (cut_line s)"
    using pl
  proof
    assume "placed ''Better Gaming Experience '' s"
    then have "placed (?hl @ [] @ '' '') s" by (rule placed_space(1))
    from final_pass_keeps_phrase[OF this ls] show ?thesis by simp
  next
    assume "placed ''Better Gaming Experience, '' s"
    then have "placed (?hl @ '','' @ '' '') s" by (rule placed_space(2))
    from final_pass_keeps_phrase[OF this ls] show ?thesis by simp
  qed
  with fh bs have c: "contains ?hl (fl ! nat h)" by simp
  from lf n have ge: "\<not> int (length fl) < 7" by simp
  have m: "max 1 (7::int) = 7" "max (7::int) 12 = 12" by simp_all
  have "generate_random_text_snippet ?hl 7 12 g = Inr ((Some fl, h), g4)"
    unfolding generate_random_text_snippet_def m using r1 r2 b f ge by simp
  moreover from lf n have "7 \<le> length fl" "length fl \<le> 12" by simp_all
  moreover from hn lf have "nat h < length fl" by simp
  ultimately show ?thesis using h(1) c by blast
qed

end
